theory Spec2Isabelle
  imports Main
begin

section \<open>Characters and the string primitives of the source\<close>

text \<open>
  The program works on Python \<open>str\<close> values. A text is modelled as a \<open>string\<close>
  whose characters are the code points 0 to 255; the character classes below are the
  ones Python's \<open>str\<close> methods and the \<open>re\<close> module (Unicode patterns) use on
  that range.
\<close>

definition code :: "char \<Rightarrow> nat" where
  "code c = of_char c"

text \<open>\<open>str.isspace\<close> and the class \<open>\s\<close>.\<close>

definition is_space :: "char \<Rightarrow> bool" where
  "is_space c = ((9 \<le> code c \<and> code c \<le> 13) \<or> (28 \<le> code c \<and> code c \<le> 32)
                 \<or> code c = 133 \<or> code c = 160)"

text \<open>The class \<open>\d\<close>.\<close>

definition is_digit :: "char \<Rightarrow> bool" where
  "is_digit c = (48 \<le> code c \<and> code c \<le> 57)"

text \<open>The class \<open>[A-Z]\<close> (no flag: ASCII capitals only).\<close>

definition is_capital :: "char \<Rightarrow> bool" where
  "is_capital c = (65 \<le> code c \<and> code c \<le> 90)"

text \<open>The class \<open>\w\<close>, which decides the word boundary \<open>\b\<close>.\<close>

definition is_word :: "char \<Rightarrow> bool" where
  "is_word c = (is_digit c \<or> is_capital c \<or> code c = 95 \<or> (97 \<le> code c \<and> code c \<le> 122)
                \<or> code c \<in> {170, 178, 179, 181, 185, 186, 188, 189, 190}
                \<or> (192 \<le> code c \<and> code c \<noteq> 215 \<and> code c \<noteq> 247))"

text \<open>The line boundaries of \<open>str.splitlines\<close>.\<close>

definition is_linebreak :: "char \<Rightarrow> bool" where
  "is_linebreak c = ((10 \<le> code c \<and> code c \<le> 13) \<or> (28 \<le> code c \<and> code c \<le> 30)
                     \<or> code c = 133)"

text \<open>
  A literal character \<open>p\<close> of a pattern compiled with \<open>re.I\<close> matches \<open>c\<close> when they are
  equal or \<open>p\<close> is a small ASCII letter and \<open>c\<close> its capital.
\<close>

definition ci_eq :: "char \<Rightarrow> char \<Rightarrow> bool" where
  "ci_eq p c = (c = p \<or> (97 \<le> code p \<and> code p \<le> 122 \<and> code c + 32 = code p))"

text \<open>\<open>str.strip()\<close>.\<close>

definition strip :: "string \<Rightarrow> string" where
  "strip s = rev (dropWhile is_space (rev (dropWhile is_space s)))"

text \<open>
  \<open>str.splitlines()\<close>: the text is cut at every line boundary, a carriage return
  followed by a line feed is one boundary, and there is no empty last line.
  \<open>cur\<close> holds the characters of the current line, last one first.
\<close>

fun splitlines_from :: "string \<Rightarrow> string \<Rightarrow> string list" where
  "splitlines_from cur [] = (if cur = [] then [] else [rev cur])"
| "splitlines_from cur (c # cs) =
     (if is_linebreak c then
        (if c = CHR 0x0D \<and> cs \<noteq> [] \<and> hd cs = CHR 0x0A
         then rev cur # splitlines_from [] (tl cs)
         else rev cur # splitlines_from [] cs)
      else splitlines_from (c # cur) cs)"

definition splitlines :: "string \<Rightarrow> string list" where
  "splitlines text = splitlines_from [] text"

section \<open>The regular expressions of the source\<close>

text \<open>
  Each pattern is written out as the function the backtracking matcher computes for it.

  \<open>re.sub(r'^\s*[A-Z]\s*-\s*', '', s)\<close>: the pattern is anchored at the start of the
  string and cannot match the empty string, so at most one match is removed. The classes
  \<open>\s\<close>, \<open>[A-Z]\<close> and the dash are disjoint, so the greedy match is the only one.
\<close>

definition strip_letter_dash :: "string \<Rightarrow> string" where
  "strip_letter_dash s =
     (case dropWhile is_space s of
        [] \<Rightarrow> s
      | c # r \<Rightarrow>
          if is_capital c then
            (case dropWhile is_space r of
               [] \<Rightarrow> s
             | d # r' \<Rightarrow> if d = CHR ''-'' then dropWhile is_space r' else s)
          else s)"

text \<open>
  A literal of a case-insensitive pattern, matched at the head of the string; the result
  is what follows the match.
\<close>

fun ci_lit :: "string \<Rightarrow> string \<Rightarrow> string option" where
  "ci_lit [] s = Some s"
| "ci_lit (p # ps) [] = None"
| "ci_lit (p # ps) (c # cs) = (if ci_eq p c then ci_lit ps cs else None)"

text \<open>\<open>\b\<close> after a word character: the string ends or goes on with a non-word character.\<close>

definition word_end :: "string \<Rightarrow> bool" where
  "word_end s = (case s of [] \<Rightarrow> True | c # _ \<Rightarrow> \<not> is_word c)"

text \<open>\<open>^\s*(w1|w2|...)\b\<close>, case-insensitive: the alternatives are tried in order.\<close>

fun starts_with_word :: "string list \<Rightarrow> string \<Rightarrow> bool" where
  "starts_with_word [] s = False"
| "starts_with_word (w # ws) s =
     (case ci_lit w (dropWhile is_space s) of
        Some r \<Rightarrow> if word_end r then True else starts_with_word ws s
      | None \<Rightarrow> starts_with_word ws s)"

text \<open>
  \<open>\bw\<close> followed by \<open>\b\<close> when \<open>closed\<close> holds, searched at every position;
  \<open>prev\<close> tells whether the character before the position is a word character.
  The literal starts with a letter, so the leading \<open>\b\<close> asks for \<open>\<not> prev\<close>.
\<close>

fun contains_word :: "string \<Rightarrow> bool \<Rightarrow> bool \<Rightarrow> string \<Rightarrow> bool" where
  "contains_word w closed prev [] = False"
| "contains_word w closed prev (c # cs) =
     (if \<not> prev \<and> (case ci_lit w (c # cs) of
                       Some r \<Rightarrow> \<not> closed \<or> word_end r
                     | None \<Rightarrow> False)
      then True
      else contains_word w closed (is_word c) cs)"

text \<open>\<open>^\s*inch\s*$\<close>, case-insensitive: \<open>$\<close> after \<open>\s*\<close> needs a rest of spaces only.\<close>

definition only_inch :: "string \<Rightarrow> bool" where
  "only_inch s =
     (case ci_lit ''inch'' (dropWhile is_space s) of
        Some r \<Rightarrow> list_all is_space r
      | None \<Rightarrow> False)"

text \<open>\<open>IGNORE_COMMENT_PATTERNS\<close>, in the order of the source, each with \<open>search\<close>.\<close>

definition IGNORE_COMMENT_PATTERNS :: "(string \<Rightarrow> bool) list" where
  "IGNORE_COMMENT_PATTERNS =
     [starts_with_word [''created by'', ''date'', ''time''],
      starts_with_word [''operation'', ''timely''],
      contains_word ''send to home'' True False,
      only_inch,
      contains_word ''open mind'' False False]"

fun any_pattern :: "(string \<Rightarrow> bool) list \<Rightarrow> string \<Rightarrow> bool" where
  "any_pattern [] s = False"
| "any_pattern (pat # pats) s = (if pat s then True else any_pattern pats s)"

definition is_noise_comment :: "string \<Rightarrow> bool" where
  "is_noise_comment txt =
     (let s = strip_letter_dash (strip txt)
      in if length s < 3 then True else any_pattern IGNORE_COMMENT_PATTERNS s)"

section \<open>Errors\<close>

text \<open>
  The exceptions the operations of the core can raise: an index out of range, a key that
  is not in a dictionary, and \<open>int()\<close> on a string that is not a number.
\<close>

datatype error = IndexError | KeyError | ValueError

text \<open>\<open>lines[i]\<close>: an index below zero counts from the end.\<close>

definition py_index :: "'a list \<Rightarrow> int \<Rightarrow> error + 'a" where
  "py_index xs i =
     (if 0 \<le> i \<and> i < int (length xs) then Inr (xs ! nat i)
      else if i < 0 \<and> - int (length xs) \<le> i then Inr (xs ! nat (int (length xs) + i))
      else Inl IndexError)"

text \<open>
  \<open>int(s)\<close> on a non-empty run of decimal digits is its value. Every other string is
  reported as \<open>ValueError\<close> here (Python accepts a few more, such as a sign), so
  the model raises wherever Python does.
\<close>

definition digit_val :: "char \<Rightarrow> nat" where
  "digit_val c = code c - 48"

definition digits_value :: "string \<Rightarrow> nat" where
  "digits_value s = foldl (\<lambda>a c. 10 * a + digit_val c) 0 s"

definition py_int :: "string \<Rightarrow> error + nat" where
  "py_int s =
     (if s \<noteq> [] \<and> list_all is_digit s then Inr (digits_value s) else Inl ValueError)"

section \<open>Comments\<close>

text \<open>
  The lazy group \<open>(.+?)\<close> followed by \<open>\)\<close> and a rest of the pattern \<open>k\<close>: the group
  grows one character at a time (never over a line feed, which \<open>.\<close> refuses) and stops at
  the first closing parenthesis after which \<open>k\<close> matches. \<open>acc\<close> is the group so
  far, last character first.
\<close>

fun lazy_group :: "(string \<Rightarrow> bool) \<Rightarrow> string \<Rightarrow> string \<Rightarrow> string option" where
  "lazy_group k acc [] = None"
| "lazy_group k acc (c # cs) =
     (if acc \<noteq> [] \<and> c = CHR '')'' \<and> k cs then Some (rev acc)
      else if c = CHR 0x0A then None
      else lazy_group k (c # acc) cs)"

text \<open>
  \<open>re.findall(r'\((.+?)\)', line)\<close>: the groups of the matches from left to right;
  the search goes on after the closing parenthesis of a match.
\<close>

fun comments_on_line :: "string \<Rightarrow> string list" where
  "comments_on_line [] = []"
| "comments_on_line (c # cs) =
     (if c = CHR ''('' then
        (case lazy_group (\<lambda>r. True) [] cs of
           Some g \<Rightarrow> g # comments_on_line (drop (Suc (length g)) cs)
         | None \<Rightarrow> comments_on_line cs)
      else comments_on_line cs)"

text \<open>The loop over the comments of one line: the first candidate that is not noise.\<close>

fun first_good :: "string list \<Rightarrow> string option" where
  "first_good [] = None"
| "first_good (c # cs) =
     (let cand = strip_letter_dash (strip c)
      in if \<not> is_noise_comment cand then Some cand else first_good cs)"

text \<open>
  The loop \<open>for j in range(start_idx - 1, max(-1, start_idx - search_back - 1), -1)\<close>:
  \<open>j\<close> runs downwards while it is above \<open>stop\<close>.
\<close>

function look_back :: "string list \<Rightarrow> int \<Rightarrow> int \<Rightarrow> error + string" where
  "look_back lines j stop =
     (if stop < j then
        (case py_index lines j of
           Inl e \<Rightarrow> Inl e
         | Inr l \<Rightarrow>
             (case first_good (rev (comments_on_line l)) of
                Some cand \<Rightarrow> Inr cand
              | None \<Rightarrow> look_back lines (j - 1) stop))
      else Inr [])"
  by pat_completeness auto
termination
  by (relation "measure (\<lambda>(lines, j, stop). nat (j - stop))") auto

declare look_back.simps [simp del]

definition nearest_good_comment :: "string list \<Rightarrow> int \<Rightarrow> int \<Rightarrow> error + string" where
  "nearest_good_comment lines start_idx search_back =
     (case py_index lines start_idx of
        Inl e \<Rightarrow> Inl e
      | Inr l \<Rightarrow>
          (case first_good (rev (comments_on_line l)) of
             Some cand \<Rightarrow> Inr cand
           | None \<Rightarrow> look_back lines (start_idx - 1) (max (- 1) (start_idx - search_back - 1))))"

section \<open>Tools\<close>

text \<open>
  Both tool patterns start with the letter T. A pattern is given by what it matches right
  after a T: the first group and the number of characters of the match after the T.

  \<open>T(\d{2})(\d{2})\<close>: four digits.
\<close>

definition lathe_at :: "string \<Rightarrow> (string \<times> nat) option" where
  "lathe_at cs =
     (if 4 \<le> length cs \<and> list_all is_digit (take 4 cs) then Some (take 2 cs, 4) else None)"

text \<open>
  \<open>T(\d{1,2})(?!\d)\<close>: the greedy \<open>\d{1,2}\<close> tries two digits first, then one; after
  either, the next character must not be a digit.
\<close>

definition no_digit_next :: "string \<Rightarrow> bool" where
  "no_digit_next s = (case s of [] \<Rightarrow> True | c # _ \<Rightarrow> \<not> is_digit c)"

definition mill_at :: "string \<Rightarrow> (string \<times> nat) option" where
  "mill_at cs =
     (if 2 \<le> length cs \<and> list_all is_digit (take 2 cs) \<and> no_digit_next (drop 2 cs)
      then Some (take 2 cs, 2)
      else if 1 \<le> length cs \<and> list_all is_digit (take 1 cs) \<and> no_digit_next (drop 1 cs)
      then Some (take 1 cs, 1)
      else None)"

text \<open>
  \<open>re.finditer\<close> for such a pattern: the first groups of the matches, from left to
  right; the search goes on after a match.
\<close>

fun finditer_T :: "(string \<Rightarrow> (string \<times> nat) option) \<Rightarrow> string \<Rightarrow> string list" where
  "finditer_T at [] = []"
| "finditer_T at (c # cs) =
     (if c = CHR ''T'' then
        (case at cs of
           Some (g, n) \<Rightarrow> g # finditer_T at (drop n cs)
         | None \<Rightarrow> finditer_T at cs)
      else finditer_T at cs)"

text \<open>
  The tool map is a Python dictionary from tool numbers to descriptions: a list of
  pairs in the order of insertion. A tool number is the value of a run of digits.
\<close>

type_synonym tool_map = "(nat \<times> string) list"

definition setdefault :: "tool_map \<Rightarrow> nat \<Rightarrow> string \<Rightarrow> tool_map" where
  "setdefault tools k v = (if k \<in> set (map fst tools) then tools else tools @ [(k, v)])"

text \<open>One of the two inner loops of \<open>extract_tools\<close>, over the matches of a pattern.\<close>

fun record_matches :: "string list \<Rightarrow> nat \<Rightarrow> string list \<Rightarrow> tool_map \<Rightarrow> error + tool_map" where
  "record_matches lines idx [] tools = Inr tools"
| "record_matches lines idx (g # gs) tools =
     (case py_int g of
        Inl e \<Rightarrow> Inl e
      | Inr tnum \<Rightarrow>
          (case nearest_good_comment lines (int idx) 25 of
             Inl e \<Rightarrow> Inl e
           | Inr desc \<Rightarrow> record_matches lines idx gs (setdefault tools tnum desc)))"

text \<open>The loop \<open>for idx, line in enumerate(lines)\<close>, from line \<open>idx\<close> on.\<close>

fun scan_lines :: "string list \<Rightarrow> nat \<Rightarrow> string list \<Rightarrow> tool_map \<Rightarrow> error + tool_map" where
  "scan_lines lines idx [] tools = Inr tools"
| "scan_lines lines idx (line # rest) tools =
     (case record_matches lines idx (finditer_T lathe_at line) tools of
        Inl e \<Rightarrow> Inl e
      | Inr tools1 \<Rightarrow>
          (case record_matches lines idx (finditer_T mill_at line) tools1 of
             Inl e \<Rightarrow> Inl e
           | Inr tools2 \<Rightarrow> scan_lines lines (Suc idx) rest tools2))"

definition extract_tools :: "string \<Rightarrow> error + tool_map" where
  "extract_tools text = (let lines = splitlines text in scan_lines lines 0 lines [])"

section \<open>Program name\<close>

text \<open>
  \<open>re.search(r'^\s*O\d+\s*\((.+?)\)\s*$', line)\<close>: the group of the match. The pattern
  is anchored at the start; \<open>\s*\<close>, \<open>O\<close>, \<open>\d+\<close> and the parenthesis are
  disjoint, so each greedy run is the only choice. \<open>\s*$\<close> asks for a rest of spaces only.
  \<open>o_header_here\<close> is the part \<open>O\d+\s*\((.+?)\)\s*$\<close>, matched at the head of a string.
\<close>

definition o_header_here :: "string \<Rightarrow> string option" where
  "o_header_here s =
     (case s of
        [] \<Rightarrow> None
      | c # r \<Rightarrow>
          if c = CHR ''O'' \<and> takeWhile is_digit r \<noteq> [] then
            (case dropWhile is_space (dropWhile is_digit r) of
               [] \<Rightarrow> None
             | p # body \<Rightarrow>
                 if p = CHR ''('' then lazy_group (list_all is_space) [] body else None)
          else None)"

definition re_o_header :: "string \<Rightarrow> string option" where
  "re_o_header line = o_header_here (dropWhile is_space line)"

text \<open>\<open>re.search(r'^\s*\((.+?)\)\s*$', line)\<close>.\<close>

definition re_paren_line :: "string \<Rightarrow> string option" where
  "re_paren_line line =
     (case dropWhile is_space line of
        [] \<Rightarrow> None
      | p # body \<Rightarrow>
          if p = CHR ''('' then lazy_group (list_all is_space) [] body else None)"

text \<open>The first loop of \<open>extract_program_name\<close>.\<close>

fun first_o_header :: "string list \<Rightarrow> string option" where
  "first_o_header [] = None"
| "first_o_header (line # rest) =
     (case re_o_header line of
        Some g \<Rightarrow> Some (strip g)
      | None \<Rightarrow> first_o_header rest)"

text \<open>The second loop, with the variable \<open>seen_percent\<close>.\<close>

fun after_percent :: "bool \<Rightarrow> string list \<Rightarrow> string option" where
  "after_percent seen_percent [] = None"
| "after_percent seen_percent (line # rest) =
     (if CHR ''%'' \<in> set line then after_percent True rest
      else if seen_percent then
        (case re_paren_line line of
           Some g \<Rightarrow> Some (strip g)
         | None \<Rightarrow> after_percent seen_percent rest)
      else after_percent seen_percent rest)"

definition extract_program_name :: "string \<Rightarrow> string option" where
  "extract_program_name text =
     (case first_o_header (splitlines text) of
        Some name \<Rightarrow> Some name
      | None \<Rightarrow> after_percent False (splitlines text))"

section \<open>Report\<close>

text \<open>The decimal digits of a number, and the format \<open>02d\<close>: zeros up to width 2.\<close>

definition digit_char :: "nat \<Rightarrow> char" where
  "digit_char d = char_of (48 + d)"

fun str_nat :: "nat \<Rightarrow> string" where
  "str_nat n = (if n < 10 then [digit_char n] else str_nat (n div 10) @ [digit_char (n mod 10)])"

declare str_nat.simps [simp del]

definition fmt_02d :: "nat \<Rightarrow> string" where
  "fmt_02d n = replicate (2 - length (str_nat n)) (CHR ''0'') @ str_nat n"

text \<open>\<open>"\n".join(lines)\<close>.\<close>

fun join_lines :: "string list \<Rightarrow> string" where
  "join_lines [] = []"
| "join_lines [l] = l"
| "join_lines (l # ls) = l @ [CHR 0x0A] @ join_lines ls"

text \<open>\<open>tools[t]\<close>.\<close>

definition dict_get :: "tool_map \<Rightarrow> nat \<Rightarrow> error + string" where
  "dict_get tools t = (case map_of tools t of None \<Rightarrow> Inl KeyError | Some v \<Rightarrow> Inr v)"

text \<open>The loop \<open>for t in sorted(tools.keys())\<close>; \<open>out\<close> is the list \<open>lines\<close>.\<close>

fun tool_lines :: "tool_map \<Rightarrow> nat list \<Rightarrow> string list \<Rightarrow> error + string list" where
  "tool_lines tools [] out = Inr out"
| "tool_lines tools (t # ts) out =
     (case dict_get tools t of
        Inl e \<Rightarrow> Inl e
      | Inr v \<Rightarrow>
          (let desc = strip v
           in if desc \<noteq> [] then tool_lines tools ts (out @ [''T'' @ fmt_02d t @ '' - '' @ desc])
              else tool_lines tools ts (out @ [''T'' @ fmt_02d t])))"

definition format_tool_list :: "string option \<Rightarrow> tool_map \<Rightarrow> error + string" where
  "format_tool_list program_name tools =
     (let header_name = (case program_name of
                           None \<Rightarrow> ''UNKNOWN PROGRAM''
                         | Some n \<Rightarrow> if n = [] then ''UNKNOWN PROGRAM'' else n);
          lines = [''Tool List for ( '' @ header_name @ '' ).'', []]
      in if tools = [] then Inr (join_lines (lines @ [''(No tools found)'']))
         else (case tool_lines tools (sort (map fst tools)) lines of
                 Inl e \<Rightarrow> Inl e
               | Inr out \<Rightarrow> Inr (join_lines out)))"

section \<open>Notions used in the statements\<close>

text \<open>The header line of the report.\<close>

definition header_line :: "string option \<Rightarrow> string" where
  "header_line name =
     ''Tool List for ( '' @
       (case name of
          None \<Rightarrow> ''UNKNOWN PROGRAM''
        | Some n \<Rightarrow> if n = [] then ''UNKNOWN PROGRAM'' else n) @ '' ).''"

text \<open>
  The line of one entry of the tool map, as the code writes it: the description is
  trimmed first, and the dash is written when something is left.
\<close>

definition report_line :: "nat \<times> string \<Rightarrow> string" where
  "report_line e =
     (if strip (snd e) \<noteq> [] then ''T'' @ fmt_02d (fst e) @ '' - '' @ strip (snd e)
      else ''T'' @ fmt_02d (fst e))"

text \<open>
  The line of one entry in the words of the specification: the description as it is, with
  the dash when the description is not empty.
\<close>

definition spec_report_line :: "nat \<times> string \<Rightarrow> string" where
  "spec_report_line e =
     (if snd e \<noteq> [] then ''T'' @ fmt_02d (fst e) @ '' - '' @ snd e
      else ''T'' @ fmt_02d (fst e))"

text \<open>
  The candidate made of a comment: the comment trimmed, without a leading
  capital-letter-dash prefix.
\<close>

definition candidate :: "string \<Rightarrow> string" where
  "candidate c = strip_letter_dash (strip c)"

text \<open>
  The lines the resolver looks at: line \<open>idx\<close> and up to \<open>back\<close> lines before it, the
  nearest first.
\<close>

definition window :: "string list \<Rightarrow> nat \<Rightarrow> nat \<Rightarrow> string list" where
  "window lines idx back = rev (drop (idx - back) (take (Suc idx) lines))"

text \<open>The comments of these lines in the order of testing: on each line the last first.\<close>

definition candidates :: "string list \<Rightarrow> string list" where
  "candidates ls = concat (map (\<lambda>l. rev (comments_on_line l)) ls)"

text \<open>
  The tool numbers invoked on a line: the values of the first groups of the lathe matches,
  then of the mill matches.
\<close>

definition invocations :: "string \<Rightarrow> nat list" where
  "invocations line = map digits_value (finditer_T lathe_at line @ finditer_T mill_at line)"

text \<open>The description resolved at line \<open>idx\<close> with the default window of 25 lines.\<close>

definition description_at :: "string list \<Rightarrow> nat \<Rightarrow> string" where
  "description_at lines idx =
     (case find (\<lambda>c. \<not> is_noise_comment (candidate c)) (candidates (window lines idx 25)) of
        Some c \<Rightarrow> candidate c
      | None \<Rightarrow> [])"

text \<open>What a first group of a tool pattern is: one or two digits.\<close>

definition tool_group :: "string \<Rightarrow> bool" where
  "tool_group g = (g \<noteq> [] \<and> list_all is_digit g \<and> length g \<le> 2)"

text \<open>The tool map after \<open>setdefault\<close> with one description for a list of tool numbers.\<close>

definition insert_all :: "tool_map \<Rightarrow> string \<Rightarrow> nat list \<Rightarrow> tool_map" where
  "insert_all tools d ks = foldl (\<lambda>m k. setdefault m k d) tools ks"

text \<open>
  The header pattern in the words of the specification: a word start, the letter O, one or
  more digits, optional whitespace, a parenthesized group, optional whitespace and the end
  of the line, searched in the line; \<open>prev\<close> tells whether the character before the
  position is a word character.
\<close>

fun spec_o_header :: "bool \<Rightarrow> string \<Rightarrow> string option" where
  "spec_o_header prev [] = None"
| "spec_o_header prev (c # cs) =
     (if \<not> prev \<and> o_header_here (c # cs) \<noteq> None then o_header_here (c # cs)
      else spec_o_header (is_word c) cs)"

text \<open>
  The second strategy in the words of the specification: after the first line with a
  percent sign, the first line that is entirely a parenthesized group gives the name.
\<close>

definition spec_strategy2 :: "string list \<Rightarrow> string option" where
  "spec_strategy2 ls =
     (case dropWhile (\<lambda>l. CHR ''%'' \<notin> set l) ls of
        [] \<Rightarrow> None
      | marker # rest \<Rightarrow>
          (case filter (\<lambda>l. re_paren_line l \<noteq> None) rest of
             [] \<Rightarrow> None
           | l # _ \<Rightarrow> map_option strip (re_paren_line l)))"

section \<open>The report\<close>

lemma dict_get_member:
  "k \<in> fst ` set tools \<Longrightarrow> \<exists>v. dict_get tools k = Inr v \<and> map_of tools k = Some v"
  by (cases "map_of tools k") (auto simp: dict_get_def map_of_eq_None_iff)

lemma tool_lines_total:
  "set ts \<subseteq> fst ` set tools \<Longrightarrow>
   tool_lines tools ts out = Inr (out @ map (\<lambda>t. report_line (t, the (map_of tools t))) ts)"
proof (induction ts arbitrary: out)
  case Nil
  then show ?case by simp
next
  case (Cons t ts)
  from Cons.prems have "t \<in> fst ` set tools" by simp
  then obtain v where v: "dict_get tools t = Inr v" "map_of tools t = Some v"
    using dict_get_member by blast
  from Cons.prems have sub: "set ts \<subseteq> fst ` set tools" by simp
  show ?case
    by (simp add: v Cons.IH [OF sub] report_line_def Let_def)
qed

lemma entries_of_keys:
  assumes "distinct (map fst tools)" "set es \<subseteq> set tools"
  shows "map (\<lambda>t. report_line (t, the (map_of tools t))) (map fst es) = map report_line es"
proof -
  have "\<And>e. e \<in> set es \<Longrightarrow> map_of tools (fst e) = Some (snd e)"
    using assms by (metis map_of_is_SomeI prod.collapse subsetD)
  then show ?thesis by (induction es) auto
qed

lemma map_insort_key: "map f (insort_key f x xs) = insort (f x) (map f xs)"
  by (induction xs) simp_all

lemma map_fst_sort_key: "map fst (sort_key fst xs) = sort (map fst xs)"
  by (induction xs) (simp_all add: map_insort_key)

lemma format_tool_list_closed:
  assumes "distinct (map fst tools)"
  shows "format_tool_list name tools =
           Inr (join_lines ([header_line name, []] @
                  (if tools = [] then [''(No tools found)'']
                   else map report_line (sort_key fst tools))))"
proof (cases "tools = []")
  case True
  then show ?thesis by (simp add: format_tool_list_def header_line_def)
next
  case False
  have sub: "set (sort (map fst tools)) \<subseteq> fst ` set tools" by simp
  have "map (\<lambda>t. report_line (t, the (map_of tools t))) (sort (map fst tools))
        = map report_line (sort_key fst tools)"
    using entries_of_keys [OF assms, of "sort_key fst tools"] by (simp add: map_fst_sort_key)
  then show ?thesis
    using False by (simp add: format_tool_list_def header_line_def tool_lines_total [OF sub] Let_def)
qed

lemma format_tool_list_total: "\<exists>r. format_tool_list name tools = Inr r"
proof -
  have sub: "set (sort (map fst tools)) \<subseteq> fst ` set tools" by simp
  show ?thesis
    by (simp add: format_tool_list_def tool_lines_total [OF sub] Let_def)
qed

subsection \<open>The format \<open>02d\<close>\<close>

lemma code_digit_char: "d < 10 \<Longrightarrow> code (digit_char d) = 48 + d"
  by (simp add: code_def digit_char_def)

lemma is_digit_digit_char: "d < 10 \<Longrightarrow> is_digit (digit_char d)"
  by (simp add: is_digit_def code_digit_char)

lemma digit_val_digit_char: "d < 10 \<Longrightarrow> digit_val (digit_char d) = d"
  by (simp add: digit_val_def code_digit_char)

lemma digits_value_snoc: "digits_value (s @ [c]) = 10 * digits_value s + digit_val c"
  by (simp add: digits_value_def)

lemma str_nat_digits: "list_all is_digit (str_nat n)"
  by (induction n rule: str_nat.induct) (subst str_nat.simps, simp add: is_digit_digit_char)

lemma str_nat_nonempty: "str_nat n \<noteq> []"
  by (subst str_nat.simps) simp

lemma str_nat_value: "digits_value (str_nat n) = n"
proof (induction n rule: str_nat.induct)
  case (1 n)
  show ?case
  proof (cases "n < 10")
    case True
    then show ?thesis
      by (subst str_nat.simps) (simp add: digits_value_def digit_val_digit_char)
  next
    case False
    with 1 have "digits_value (str_nat (n div 10)) = n div 10" by simp
    with False show ?thesis
      by (subst str_nat.simps) (simp add: digits_value_snoc digit_val_digit_char)
  qed
qed

lemma str_nat_length: "length (str_nat n) = 1 \<longleftrightarrow> n < 10"
proof (cases "n < 10")
  case True
  then show ?thesis by (subst str_nat.simps) simp
next
  case False
  have "length (str_nat n) = Suc (length (str_nat (n div 10)))"
    using False by (subst str_nat.simps) simp
  moreover have "length (str_nat (n div 10)) \<noteq> 0" using str_nat_nonempty by simp
  ultimately show ?thesis using False by simp
qed

lemma str_nat_two_digits: "\<not> n < 10 \<Longrightarrow> 2 \<le> length (str_nat n)"
proof -
  assume "\<not> n < 10"
  then have "length (str_nat n) \<noteq> 1" using str_nat_length [of n] by simp
  moreover have "length (str_nat n) \<noteq> 0" using str_nat_nonempty by simp
  ultimately show ?thesis by arith
qed

lemma digit_char_zero: "d < 10 \<Longrightarrow> digit_char d = CHR ''0'' \<longleftrightarrow> d = 0"
proof
  assume a: "d < 10" and b: "digit_char d = CHR ''0''"
  have "code (digit_char d) = 48" unfolding b by (simp add: code_def)
  with a show "d = 0" by (simp add: code_digit_char)
next
  assume "d < 10" "d = 0"
  moreover have "digit_char 0 = CHR ''0''" by code_simp
  ultimately show "digit_char d = CHR ''0''" by simp
qed

lemma str_nat_no_leading_zero: "0 < n \<Longrightarrow> hd (str_nat n) \<noteq> CHR ''0''"
proof (induction n rule: str_nat.induct)
  case (1 n)
  show ?case
  proof (cases "n < 10")
    case True
    with 1 show ?thesis by (subst str_nat.simps) (simp add: digit_char_zero)
  next
    case False
    with 1 have "hd (str_nat (n div 10)) \<noteq> CHR ''0''" by simp
    with False show ?thesis
      by (subst str_nat.simps) (simp add: str_nat_nonempty)
  qed
qed

lemma fmt_02d_cases: "fmt_02d n = (if n < 10 then [CHR ''0'', digit_char n] else str_nat n)"
proof (cases "n < 10")
  case True
  then have "str_nat n = [digit_char n]" by (subst str_nat.simps) simp
  with True show ?thesis by (simp add: fmt_02d_def)
next
  case False
  with str_nat_two_digits [OF False] show ?thesis by (simp add: fmt_02d_def)
qed

lemma digits_value_zero_Cons: "digits_value (CHR ''0'' # s) = digits_value s"
  by (simp add: digits_value_def digit_val_def code_def)

lemma is_digit_zero: "is_digit (CHR ''0'')"
  by (simp add: is_digit_def code_def)

lemma fmt_02d_padded:
  "2 \<le> length (fmt_02d n) \<and> list_all is_digit (fmt_02d n) \<and> py_int (fmt_02d n) = Inr n
   \<and> (if n < 10 then length (fmt_02d n) = 2 else hd (fmt_02d n) \<noteq> CHR ''0'')"
proof (cases "n < 10")
  case True
  have "digits_value [digit_char n] = n"
    using True by (simp add: digits_value_def digit_val_digit_char)
  with True show ?thesis
    by (simp add: fmt_02d_cases py_int_def is_digit_zero is_digit_digit_char
        digits_value_zero_Cons)
next
  case False
  with str_nat_two_digits [OF False] show ?thesis
    by (simp add: fmt_02d_cases py_int_def str_nat_digits str_nat_nonempty str_nat_value
        str_nat_no_leading_zero)
qed

text \<open>
  Claim C8, as the code has it. For every program name and every tool map (a dictionary:
  its keys are distinct), the report is the header line
  \<open>Tool List for ( <name or UNKNOWN PROGRAM> ).\<close>, an empty line, and then either the one
  line \<open>(No tools found)\<close> when the map is empty, or one line for each entry of the map,
  in ascending order of the tool numbers: \<open>T<NN> - <description>\<close> with the description
  trimmed of surrounding whitespace when the trimmed description is not empty, else
  \<open>T<NN>\<close> alone. \<open>NN\<close> is the tool number in decimal digits, with a leading zero
  exactly when the number is below ten. For the name DEMO and the map
  \<open>{1: "FACE MILL", 4: ""}\<close> the report is the four lines of the specification.
\<close>

theorem format_tool_list_report:
  assumes "distinct (map fst tools)"
  shows "format_tool_list name tools =
           Inr (join_lines ([header_line name, []] @
                  (if tools = [] then [''(No tools found)'']
                   else map report_line (sort_key fst tools))))
         \<and> sorted (map fst (sort_key fst tools))
         \<and> set (sort_key fst tools) = set tools
         \<and> length (sort_key fst tools) = length tools
         \<and> (\<forall>n. 2 \<le> length (fmt_02d n) \<and> list_all is_digit (fmt_02d n)
                \<and> py_int (fmt_02d n) = Inr n
                \<and> (if n < 10 then length (fmt_02d n) = 2 else hd (fmt_02d n) \<noteq> CHR ''0''))
         \<and> format_tool_list (Some ''DEMO'') [(1, ''FACE MILL''), (4, [])] =
             Inr (''Tool List for ( DEMO ).'' @ [CHR 0x0A, CHR 0x0A] @ ''T01 - FACE MILL''
                  @ [CHR 0x0A] @ ''T04'')"
proof -
  have demo: "format_tool_list (Some ''DEMO'') [(1, ''FACE MILL''), (4, [])] =
             Inr (''Tool List for ( DEMO ).'' @ [CHR 0x0A, CHR 0x0A] @ ''T01 - FACE MILL''
                  @ [CHR 0x0A] @ ''T04'')"
    by code_simp
  show ?thesis
    using format_tool_list_closed [OF assms, of name] fmt_02d_padded demo by simp
qed

theorem format_tool_list_report_witness:
  "distinct (map fst [(4 :: nat, []), (1, ''FACE MILL'')])
   \<and> format_tool_list (Some ''DEMO'') [(4, []), (1, ''FACE MILL'')] =
       Inr (''Tool List for ( DEMO ).'' @ [CHR 0x0A, CHR 0x0A] @ ''T01 - FACE MILL''
            @ [CHR 0x0A] @ ''T04'')"
proof -
  have d: "distinct (map fst [(4 :: nat, []), (1, ''FACE MILL'')])" by simp
  have "format_tool_list (Some ''DEMO'') [(4, []), (1, ''FACE MILL'')] =
          Inr (join_lines ([header_line (Some ''DEMO''), []] @
                 map report_line (sort_key fst [(4 :: nat, []), (1, ''FACE MILL'')])))"
    using format_tool_list_report [OF d, of "Some ''DEMO''"] by simp
  moreover have "join_lines ([header_line (Some ''DEMO''), []] @
                   map report_line (sort_key fst [(4 :: nat, []), (1, ''FACE MILL'')])) =
                 ''Tool List for ( DEMO ).'' @ [CHR 0x0A, CHR 0x0A] @ ''T01 - FACE MILL''
                 @ [CHR 0x0A] @ ''T04''"
    by code_simp
  ultimately show ?thesis using d by simp
qed

text \<open>
  The claim as the specification words it fails where a description has surrounding
  whitespace: the description of one space is not empty, and its line has no dash.
\<close>

theorem format_tool_list_blank_description_counterexample:
  "format_tool_list (Some ''DEMO'') [(1, '' '')] =
     Inr (''Tool List for ( DEMO ).'' @ [CHR 0x0A, CHR 0x0A] @ ''T01'')
   \<and> format_tool_list (Some ''DEMO'') [(1, '' '')] \<noteq>
       Inr (join_lines [header_line (Some ''DEMO''), [], spec_report_line (1, '' '')])"
  by code_simp

text \<open>
  Claim C10. The empty program name gives the same report as no program name, with the
  header \<open>Tool List for ( UNKNOWN PROGRAM ).\<close>; and the empty name can come out of
  \<open>extract_program_name\<close>: the header \<open>O1 ( )\<close> has a group of one space, which is
  trimmed to the empty string.
\<close>

theorem empty_name_is_unknown_program:
  "format_tool_list (Some []) tools = format_tool_list None tools
   \<and> (\<exists>body. format_tool_list None tools =
                Inr (''Tool List for ( UNKNOWN PROGRAM ).'' @ CHR 0x0A # body))
   \<and> extract_program_name ''O1 ( )'' = Some []"
proof -
  have same: "format_tool_list (Some []) tools = format_tool_list None tools"
    by (simp add: format_tool_list_def)
  have sub: "set (sort (map fst tools)) \<subseteq> fst ` set tools" by simp
  have "\<exists>body. format_tool_list None tools =
                Inr (''Tool List for ( UNKNOWN PROGRAM ).'' @ CHR 0x0A # body)"
    by (simp add: format_tool_list_def tool_lines_total [OF sub] Let_def)
  moreover have "extract_program_name ''O1 ( )'' = Some []" by code_simp
  ultimately show ?thesis using same by simp
qed

theorem empty_name_is_unknown_program_witness:
  "format_tool_list (Some []) [(7, ''DRILL'')] =
     Inr (''Tool List for ( UNKNOWN PROGRAM ).'' @ [CHR 0x0A, CHR 0x0A] @ ''T07 - DRILL'')"
proof -
  have "format_tool_list None [(7, ''DRILL'')] =
     Inr (''Tool List for ( UNKNOWN PROGRAM ).'' @ [CHR 0x0A, CHR 0x0A] @ ''T07 - DRILL'')"
    by code_simp
  then show ?thesis
    using empty_name_is_unknown_program [of "[(7, ''DRILL'')]"] by simp
qed

section \<open>The comment of a tool call\<close>

lemma py_index_nat: "i < length xs \<Longrightarrow> py_index xs (int i) = Inr (xs ! i)"
  by (simp add: py_index_def)

lemma first_good_find:
  "first_good cs =
     map_option candidate (find (\<lambda>c. \<not> is_noise_comment (candidate c)) cs)"
  by (induction cs) (simp_all add: candidate_def Let_def)

lemma first_good_append:
  "first_good (xs @ ys) = (case first_good xs of Some c \<Rightarrow> Some c | None \<Rightarrow> first_good ys)"
  by (induction xs) (simp_all add: Let_def)

lemma look_back_window:
  "j \<le> length lines \<Longrightarrow> - 1 \<le> stop \<Longrightarrow>
   look_back lines (int j - 1) stop =
     Inr (case first_good (candidates (rev (drop (nat (stop + 1)) (take j lines)))) of
            Some c \<Rightarrow> c | None \<Rightarrow> [])"
proof (induction j)
  case 0
  then show ?case by (subst look_back.simps) (simp add: candidates_def)
next
  case (Suc j)
  then have j: "j < length lines" and IH: "look_back lines (int j - 1) stop =
     Inr (case first_good (candidates (rev (drop (nat (stop + 1)) (take j lines)))) of
            Some c \<Rightarrow> c | None \<Rightarrow> [])"
    by simp_all
  show ?case
  proof (cases "stop < int j")
    case True
    then have k: "nat (stop + 1) \<le> j" by simp
    have "drop (nat (stop + 1)) (take (Suc j) lines)
            = drop (nat (stop + 1)) (take j lines) @ [lines ! j]"
      using j k by (simp add: take_Suc_conv_app_nth)
    then have c: "candidates (rev (drop (nat (stop + 1)) (take (Suc j) lines)))
            = rev (comments_on_line (lines ! j))
              @ candidates (rev (drop (nat (stop + 1)) (take j lines)))"
      by (simp add: candidates_def)
    have "look_back lines (int j) stop =
            (case first_good (rev (comments_on_line (lines ! j))) of
               Some cand \<Rightarrow> Inr cand
             | None \<Rightarrow> look_back lines (int j - 1) stop)"
      using True j by (subst look_back.simps) (simp add: py_index_nat)
    then show ?thesis
      by (simp add: c first_good_append IH split: option.splits)
  next
    case False
    then have "length (take (Suc j) lines) \<le> nat (stop + 1)" by simp
    then have "drop (nat (stop + 1)) (take (Suc j) lines) = []" by (rule drop_all)
    moreover have "look_back lines (int j) stop = Inr []"
      using False by (subst look_back.simps) simp
    ultimately show ?thesis by (simp add: candidates_def)
  qed
qed

lemma nearest_good_comment_closed:
  assumes "idx < length lines"
  shows "nearest_good_comment lines (int idx) back =
           Inr (case first_good (candidates (window lines idx (nat back))) of
                  Some c \<Rightarrow> c | None \<Rightarrow> [])"
proof -
  let ?stop = "max (- 1) (int idx - back - 1)"
  have d: "drop (nat (?stop + 1)) (take idx lines) = drop (idx - nat back) (take idx lines)"
  proof (cases "0 \<le> back")
    case True
    then have "nat (?stop + 1) = idx - nat back" by (simp add: max_def) arith
    then show ?thesis by simp
  next
    case False
    then have "length (take idx lines) \<le> nat (?stop + 1)" by (simp add: max_def)
    then have "drop (nat (?stop + 1)) (take idx lines) = []" by (rule drop_all)
    moreover from False have "drop (idx - nat back) (take idx lines) = []" by simp
    ultimately show ?thesis by simp
  qed
  have "drop (idx - nat back) (take (Suc idx) lines)
          = drop (idx - nat back) (take idx lines) @ [lines ! idx]"
    using assms by (simp add: take_Suc_conv_app_nth)
  then have w: "candidates (window lines idx (nat back))
          = rev (comments_on_line (lines ! idx))
            @ candidates (rev (drop (idx - nat back) (take idx lines)))"
    by (simp add: candidates_def window_def)
  have lb: "look_back lines (int idx - 1) ?stop =
     Inr (case first_good (candidates (rev (drop (idx - nat back) (take idx lines)))) of
            Some c \<Rightarrow> c | None \<Rightarrow> [])"
    using look_back_window [of idx lines ?stop] assms d by simp
  show ?thesis
    by (simp add: nearest_good_comment_def py_index_nat [OF assms] w first_good_append lb
        split: option.splits)
qed

lemma nearest_good_comment_total:
  "idx < length lines \<Longrightarrow> \<exists>d. nearest_good_comment lines (int idx) back = Inr d"
  by (simp add: nearest_good_comment_closed)

text \<open>
  Claim C6. For every sequence of lines, every index of a line in it and every size of
  the back window, \<open>_nearest_good_comment\<close> returns the first candidate that is not noise
  among the comments of the indexed line, the rightmost first, then the comments of the
  line before it, the rightmost first, and so on for at most \<open>back\<close> lines before the
  indexed line; the candidate of a comment is the comment trimmed and without its
  capital-letter-dash prefix, and this is what is returned. When no candidate in the
  window qualifies, the result is the empty string.
\<close>

theorem nearest_good_comment_window:
  assumes "idx < length lines"
  shows "nearest_good_comment lines (int idx) (int back) =
           Inr (case find (\<lambda>c. \<not> is_noise_comment (candidate c))
                       (candidates (window lines idx back)) of
                  Some c \<Rightarrow> candidate c
                | None \<Rightarrow> [])"
  using nearest_good_comment_closed [OF assms, of "int back"]
  by (simp add: first_good_find split: option.splits)

theorem nearest_good_comment_window_witness:
  "(2 :: nat) < length [''(FIRST ONE) (SECOND ONE)'', ''G0 X1 (date)'', ''T1 M6 (D - ab)'']
   \<and> nearest_good_comment [''(FIRST ONE) (SECOND ONE)'', ''G0 X1 (date)'', ''T1 M6 (D - ab)'']
         (int 2) (int 25) = Inr ''SECOND ONE''"
proof -
  let ?L = "[''(FIRST ONE) (SECOND ONE)'', ''G0 X1 (date)'', ''T1 M6 (D - ab)'']"
  have h: "(2 :: nat) < length ?L" by simp
  have "(case find (\<lambda>c. \<not> is_noise_comment (candidate c)) (candidates (window ?L 2 25)) of
           Some c \<Rightarrow> candidate c | None \<Rightarrow> []) = ''SECOND ONE''"
    by code_simp
  with nearest_good_comment_window [OF h, of 25] h show ?thesis by simp
qed

section \<open>The tool map\<close>

lemma nearest_good_comment_description:
  "idx < length lines \<Longrightarrow> nearest_good_comment lines (int idx) 25 = Inr (description_at lines idx)"
  using nearest_good_comment_closed [of idx lines 25]
  by (simp add: description_at_def first_good_find split: option.splits)

lemma lathe_at_group: "lathe_at cs = Some (g, n) \<Longrightarrow> tool_group g"
proof -
  assume "lathe_at cs = Some (g, n)"
  then have g: "g = take 2 cs" and l: "4 \<le> length cs" and d: "list_all is_digit (take 4 cs)"
    by (auto simp: lathe_at_def split: if_splits)
  have "set (take 2 cs) \<subseteq> set (take 4 cs)" by (rule set_take_subset_set_take) simp
  with d have "list_all is_digit (take 2 cs)" by (auto simp: list_all_iff)
  with g l show ?thesis by (auto simp: tool_group_def)
qed

lemma mill_at_group: "mill_at cs = Some (g, n) \<Longrightarrow> tool_group g"
  by (auto simp: mill_at_def tool_group_def list_all_iff split: if_splits)

lemma finditer_T_groups:
  assumes "\<And>cs g n. at cs = Some (g, n) \<Longrightarrow> P g"
  shows "list_all P (finditer_T at s)"
  using assms
proof (induction at s rule: finditer_T.induct)
  case (1 at)
  show ?case by simp
next
  case (2 at c cs)
  show ?case
  proof (cases "c = CHR ''T''")
    case True
    show ?thesis
    proof (cases "at cs")
      case None
      with True 2 show ?thesis by simp
    next
      case (Some gn)
      obtain g n where gn: "gn = (g, n)" by (cases gn)
      with Some have "P g" using "2.prems" by blast
      moreover have "list_all P (finditer_T at (drop n cs))"
        using "2.IH"(2) True Some gn "2.prems" by blast
      ultimately show ?thesis using True Some gn by simp
    qed
  next
    case False
    with 2 show ?thesis by simp
  qed
qed

lemma py_int_group: "tool_group g \<Longrightarrow> py_int g = Inr (digits_value g)"
  by (simp add: py_int_def tool_group_def)

lemma digit_val_le: "is_digit c \<Longrightarrow> digit_val c \<le> 9"
  unfolding is_digit_def digit_val_def by arith

lemma digits_value_group: "tool_group g \<Longrightarrow> digits_value g \<le> 99"
proof -
  assume g: "tool_group g"
  then consider c where "g = [c]" "is_digit c" | c d where "g = [c, d]" "is_digit c" "is_digit d"
    by (cases g; cases "tl g"; cases "tl (tl g)") (auto simp: tool_group_def)
  then show ?thesis
  proof cases
    case 1
    then show ?thesis using digit_val_le [of c] by (simp add: digits_value_def)
  next
    case 2
    then show ?thesis using digit_val_le [of c] digit_val_le [of d] by (simp add: digits_value_def)
  qed
qed

lemma record_matches_eq:
  assumes "idx < length lines" "list_all tool_group gs"
  shows "record_matches lines idx gs tools =
           Inr (insert_all tools (description_at lines idx) (map digits_value gs))"
  using assms(2)
proof (induction gs arbitrary: tools)
  case Nil
  show ?case by (simp add: insert_all_def)
next
  case (Cons g gs)
  then have "tool_group g" "list_all tool_group gs" by simp_all
  then show ?case
    using Cons.IH [of "setdefault tools (digits_value g) (description_at lines idx)"]
    by (simp add: py_int_group nearest_good_comment_description [OF assms(1)] insert_all_def)
qed

lemma insert_all_append: "insert_all tools d (xs @ ys) = insert_all (insert_all tools d xs) d ys"
  by (simp add: insert_all_def)

lemma invocations_bound: "k \<in> set (invocations line) \<Longrightarrow> k \<le> 99"
proof -
  assume "k \<in> set (invocations line)"
  then obtain g where "g \<in> set (finditer_T lathe_at line) \<or> g \<in> set (finditer_T mill_at line)"
    and k: "k = digits_value g"
    by (auto simp: invocations_def)
  moreover have "list_all tool_group (finditer_T lathe_at line)"
    by (rule finditer_T_groups) (rule lathe_at_group)
  moreover have "list_all tool_group (finditer_T mill_at line)"
    by (rule finditer_T_groups) (rule mill_at_group)
  ultimately have "tool_group g" by (auto simp: list_all_iff)
  then show ?thesis using k digits_value_group by simp
qed

lemma scan_lines_step:
  assumes "lines = pre @ line # rest"
  shows "scan_lines lines (length pre) (line # rest) tools =
           scan_lines lines (Suc (length pre)) rest
             (insert_all tools (description_at lines (length pre)) (invocations line))"
proof -
  have i: "length pre < length lines" using assms by simp
  have l: "list_all tool_group (finditer_T lathe_at line)"
    by (rule finditer_T_groups) (rule lathe_at_group)
  have m: "list_all tool_group (finditer_T mill_at line)"
    by (rule finditer_T_groups) (rule mill_at_group)
  show ?thesis
    by (simp add: record_matches_eq [OF i l] record_matches_eq [OF i m] invocations_def
        insert_all_append)
qed

lemma map_of_setdefault:
  "map_of (setdefault m k v) k' =
     (case map_of m k' of Some x \<Rightarrow> Some x | None \<Rightarrow> if k' = k then Some v else None)"
  by (auto simp: setdefault_def map_add_def dom_map_of_conv_image_fst [symmetric] domIff
      split: option.splits)

lemma keys_setdefault: "fst ` set (setdefault m k v) = insert k (fst ` set m)"
  by (auto simp: setdefault_def)

lemma distinct_setdefault: "distinct (map fst m) \<Longrightarrow> distinct (map fst (setdefault m k v))"
  by (auto simp: setdefault_def)

lemma map_of_insert_all:
  "map_of (insert_all m d ks) k =
     (case map_of m k of Some x \<Rightarrow> Some x | None \<Rightarrow> if k \<in> set ks then Some d else None)"
  unfolding insert_all_def
  by (induction ks arbitrary: m) (auto simp: map_of_setdefault split: option.splits)

lemma keys_insert_all: "fst ` set (insert_all m d ks) = fst ` set m \<union> set ks"
  unfolding insert_all_def
  by (induction ks arbitrary: m) (auto simp: keys_setdefault)

lemma distinct_insert_all: "distinct (map fst m) \<Longrightarrow> distinct (map fst (insert_all m d ks))"
  unfolding insert_all_def
  by (induction ks arbitrary: m) (auto simp: distinct_setdefault)


lemma scan_lines_result:
  "lines = pre @ rest \<Longrightarrow>
   \<exists>m. scan_lines lines (length pre) rest tools = Inr m
     \<and> fst ` set m = fst ` set tools \<union> (\<Union>l\<in>set rest. set (invocations l))
     \<and> (distinct (map fst tools) \<longrightarrow> distinct (map fst m))
     \<and> (\<forall>k v. map_of tools k = Some v \<longrightarrow> map_of m k = Some v)"
proof (induction rest arbitrary: pre tools)
  case Nil
  show ?case by simp
next
  case (Cons line rest)
  let ?tools = "insert_all tools (description_at lines (length pre)) (invocations line)"
  have step: "scan_lines lines (length pre) (line # rest) tools =
                scan_lines lines (length (pre @ [line])) rest ?tools"
    using scan_lines_step [OF Cons.prems, of tools] by simp
  from Cons.prems have "lines = (pre @ [line]) @ rest" by simp
  from Cons.IH [OF this, of ?tools] obtain m where
    m: "scan_lines lines (length (pre @ [line])) rest ?tools = Inr m"
    and keys: "fst ` set m = fst ` set ?tools \<union> (\<Union>l\<in>set rest. set (invocations l))"
    and dist: "distinct (map fst ?tools) \<longrightarrow> distinct (map fst m)"
    and pres: "\<forall>k v. map_of ?tools k = Some v \<longrightarrow> map_of m k = Some v"
    by blast
  have "fst ` set m = fst ` set tools \<union> (\<Union>l\<in>set (line # rest). set (invocations l))"
    using keys by (auto simp: keys_insert_all)
  moreover have "distinct (map fst tools) \<longrightarrow> distinct (map fst m)"
    using dist distinct_insert_all by blast
  moreover have "\<forall>k v. map_of tools k = Some v \<longrightarrow> map_of m k = Some v"
    using pres by (simp add: map_of_insert_all)
  ultimately show ?case using step m by simp
qed

lemma scan_lines_first:
  "lines = pre @ rest \<Longrightarrow> scan_lines lines (length pre) rest tools = Inr m \<Longrightarrow>
   i < length rest \<Longrightarrow> k \<in> set (invocations (rest ! i)) \<Longrightarrow>
   (\<And>j. j < i \<Longrightarrow> k \<notin> set (invocations (rest ! j))) \<Longrightarrow> k \<notin> fst ` set tools \<Longrightarrow>
   map_of m k = Some (description_at lines (length pre + i))"
proof (induction rest arbitrary: pre tools i)
  case Nil
  then show ?case by simp
next
  case (Cons line rest)
  let ?tools = "insert_all tools (description_at lines (length pre)) (invocations line)"
  have split: "lines = (pre @ [line]) @ rest" using Cons.prems(1) by simp
  have run: "scan_lines lines (length (pre @ [line])) rest ?tools = Inr m"
    using scan_lines_step [OF Cons.prems(1), of tools] Cons.prems(2) by simp
  have none: "map_of tools k = None"
    using Cons.prems(6) by (simp add: map_of_eq_None_iff)
  show ?case
  proof (cases i)
    case 0
    with Cons.prems(4) have "k \<in> set (invocations line)" by simp
    then have "map_of ?tools k = Some (description_at lines (length pre))"
      by (simp add: map_of_insert_all none)
    moreover have "\<forall>k v. map_of ?tools k = Some v \<longrightarrow> map_of m k = Some v"
      using scan_lines_result [OF split, of ?tools] run by auto
    ultimately show ?thesis using 0 by simp
  next
    case (Suc i')
    have "k \<notin> set (invocations line)" using Cons.prems(5) [of 0] Suc by simp
    then have new: "k \<notin> fst ` set ?tools"
      using Cons.prems(6) by (simp add: keys_insert_all)
    have "map_of m k = Some (description_at lines (length (pre @ [line]) + i'))"
    proof (rule Cons.IH [OF split run _ _ _ new])
      show "i' < length rest" using Cons.prems(3) Suc by simp
      show "k \<in> set (invocations (rest ! i'))" using Cons.prems(4) Suc by simp
      show "\<And>j. j < i' \<Longrightarrow> k \<notin> set (invocations (rest ! j))"
        using Cons.prems(5) Suc by (metis Suc_less_eq nth_Cons_Suc)
    qed
    then show ?thesis using Suc by simp
  qed
qed

lemma extract_tools_result:
  "\<exists>m. extract_tools text = Inr m
     \<and> fst ` set m = (\<Union>l\<in>set (splitlines text). set (invocations l))
     \<and> distinct (map fst m)"
  using scan_lines_result [of "splitlines text" "[]" "splitlines text" "[]"]
  by (auto simp: extract_tools_def Let_def)

lemma extract_tools_first:
  assumes "i < length (splitlines text)" "k \<in> set (invocations (splitlines text ! i))"
    "\<And>j. j < i \<Longrightarrow> k \<notin> set (invocations (splitlines text ! j))"
  shows "\<exists>m. extract_tools text = Inr m
           \<and> map_of m k = Some (description_at (splitlines text) i)"
proof -
  obtain m where m: "scan_lines (splitlines text) (length ([] :: string list)) (splitlines text) [] = Inr m"
    using scan_lines_result [of "splitlines text" "[]" "splitlines text" "[]"] by auto
  have "map_of m k = Some (description_at (splitlines text) (length ([] :: string list) + i))"
  proof (rule scan_lines_first [OF _ m assms(1) assms(2)])
    show "splitlines text = [] @ splitlines text" by simp
    show "\<And>j. j < i \<Longrightarrow> k \<notin> set (invocations (splitlines text ! j))" by (rule assms(3))
    show "k \<notin> fst ` set ([] :: tool_map)" by simp
  qed
  then show ?thesis using m by (simp add: extract_tools_def Let_def)
qed

lemma is_digit_T: "\<not> is_digit (CHR ''T'')"
  by (simp add: is_digit_def code_def)

lemma finditer_T_occurrence:
  assumes digits: "\<And>cs g n. at cs = Some (g, n) \<Longrightarrow> n \<le> length cs \<and> list_all is_digit (take n cs)"
    and here: "at x = Some (g, n)"
  shows "g \<in> set (finditer_T at (pre @ CHR ''T'' # x))"
proof (induction pre rule: length_induct)
  case (1 pre)
  show ?case
  proof (cases pre)
    case Nil
    then show ?thesis using here by simp
  next
    case (Cons c p)
    from 1 have IH: "\<And>ys. length ys < length pre \<Longrightarrow> g \<in> set (finditer_T at (ys @ CHR ''T'' # x))"
      by blast
    have p: "g \<in> set (finditer_T at (p @ CHR ''T'' # x))"
      using IH [of p] Cons by simp
    show ?thesis
    proof (cases "c = CHR ''T'' \<and> at (p @ CHR ''T'' # x) \<noteq> None")
      case False
      then have "c \<noteq> CHR ''T'' \<or> at (p @ CHR ''T'' # x) = None" by blast
      then have "finditer_T at (c # p @ CHR ''T'' # x) = finditer_T at (p @ CHR ''T'' # x)"
        by (elim disjE) simp_all
      then show ?thesis using Cons p by simp
    next
      case True
      then obtain g' n' where m: "at (p @ CHR ''T'' # x) = Some (g', n')" by auto
      from digits [OF m] have d: "list_all is_digit (take n' (p @ CHR ''T'' # x))" by simp
      have le: "n' \<le> length p"
      proof (rule ccontr)
        assume "\<not> n' \<le> length p"
        then have lt: "length p < n'" by simp
        from digits [OF m] have "n' \<le> length (p @ CHR ''T'' # x)" by simp
        with lt have "length p < length (take n' (p @ CHR ''T'' # x))" by simp
        with d have "is_digit (take n' (p @ CHR ''T'' # x) ! length p)"
          unfolding list_all_length by blast
        moreover have "take n' (p @ CHR ''T'' # x) ! length p = (p @ CHR ''T'' # x) ! length p"
          using lt by (rule nth_take)
        ultimately have "is_digit ((p @ CHR ''T'' # x) ! length p)" by simp
        then show False by (simp only: nth_append_length is_digit_T)
      qed
      then have "drop n' (p @ CHR ''T'' # x) = drop n' p @ CHR ''T'' # x" by simp
      moreover have "g \<in> set (finditer_T at (drop n' p @ CHR ''T'' # x))"
        using IH [of "drop n' p"] Cons by simp
      ultimately show ?thesis using Cons True m by simp
    qed
  qed
qed


lemma lathe_at_digits:
  "lathe_at cs = Some (g, n) \<Longrightarrow> n \<le> length cs \<and> list_all is_digit (take n cs)"
  by (auto simp: lathe_at_def split: if_splits)

lemma mill_at_digits:
  "mill_at cs = Some (g, n) \<Longrightarrow> n \<le> length cs \<and> list_all is_digit (take n cs)"
  by (auto simp: mill_at_def split: if_splits)

lemma lathe_at_here:
  "is_digit d1 \<Longrightarrow> is_digit d2 \<Longrightarrow> is_digit d3 \<Longrightarrow> is_digit d4 \<Longrightarrow>
   lathe_at (d1 # d2 # d3 # d4 # post) = Some ([d1, d2], 4)"
  by (simp add: lathe_at_def)

lemma mill_at_here:
  assumes "ds \<noteq> []" "length ds \<le> 2" "list_all is_digit ds" "no_digit_next post"
  shows "mill_at (ds @ post) = Some (ds, length ds)"
proof -
  from assms(1,2) consider d where "ds = [d]" | d e where "ds = [d, e]"
    by (cases ds; cases "tl ds"; cases "tl (tl ds)") auto
  then show ?thesis
  proof cases
    case 1
    with assms show ?thesis
      by (cases post) (simp_all add: mill_at_def no_digit_next_def)
  next
    case 2
    with assms show ?thesis by (simp add: mill_at_def)
  qed
qed

lemma mill_at_long_run:
  "is_digit d1 \<Longrightarrow> is_digit d2 \<Longrightarrow> is_digit d3 \<Longrightarrow> mill_at (d1 # d2 # d3 # r) = None"
  by (simp add: mill_at_def no_digit_next_def)

lemma lathe_invocation:
  assumes "is_digit d1" "is_digit d2" "is_digit d3" "is_digit d4"
  shows "digits_value [d1, d2] \<in> set (invocations (pre @ CHR ''T'' # d1 # d2 # d3 # d4 # post))"
proof -
  have "[d1, d2] \<in> set (finditer_T lathe_at (pre @ CHR ''T'' # d1 # d2 # d3 # d4 # post))"
    by (rule finditer_T_occurrence [where at = lathe_at, OF _ lathe_at_here [OF assms]])
      (rule lathe_at_digits)
  then show ?thesis by (auto simp: invocations_def)
qed

lemma mill_invocation:
  assumes "ds \<noteq> []" "length ds \<le> 2" "list_all is_digit ds" "no_digit_next post"
  shows "digits_value ds \<in> set (invocations (pre @ CHR ''T'' # ds @ post))"
proof -
  have "ds \<in> set (finditer_T mill_at (pre @ CHR ''T'' # ds @ post))"
    by (rule finditer_T_occurrence [where at = mill_at, OF _ mill_at_here [OF assms]])
      (rule mill_at_digits)
  then show ?thesis by (auto simp: invocations_def)
qed

lemma invoked_is_key:
  assumes "i < length (splitlines text)" "k \<in> set (invocations (splitlines text ! i))"
  shows "\<exists>m d. extract_tools text = Inr m \<and> map_of m k = Some d"
proof -
  obtain m where m: "extract_tools text = Inr m"
    and keys: "fst ` set m = (\<Union>l\<in>set (splitlines text). set (invocations l))"
    using extract_tools_result by blast
  have "splitlines text ! i \<in> set (splitlines text)" using assms(1) by simp
  with assms(2) keys have "k \<in> fst ` set m" by blast
  then have "map_of m k \<noteq> None" by (simp add: map_of_eq_None_iff)
  with m show ?thesis by auto
qed

text \<open>
  Claim C1. When a tool number is invoked on line \<open>i\<close> and on no line before it, the
  tool map of \<open>extract_tools\<close> gives this tool number the description that
  \<open>_nearest_good_comment\<close> resolves at line \<open>i\<close>, whatever later lines invoke it
  with; and \<open>setdefault\<close> never changes the description of a tool number that is in
  the map.
\<close>

theorem first_occurrence_wins:
  assumes "i < length (splitlines text)"
    and "t \<in> set (invocations (splitlines text ! i))"
    and "\<forall>j<i. t \<notin> set (invocations (splitlines text ! j))"
  shows "(\<exists>m d. extract_tools text = Inr m
            \<and> nearest_good_comment (splitlines text) (int i) 25 = Inr d
            \<and> map_of m t = Some d)
         \<and> (\<forall>tools k v k' v'. map_of tools k = Some v
               \<longrightarrow> map_of (setdefault tools k' v') k = Some v)"
proof (intro conjI)
  have "\<exists>m. extract_tools text = Inr m
           \<and> map_of m t = Some (description_at (splitlines text) i)"
  proof (rule extract_tools_first [OF assms(1) assms(2)])
    fix j assume "j < i"
    with assms(3) show "t \<notin> set (invocations (splitlines text ! j))" by blast
  qed
  then obtain m where "extract_tools text = Inr m"
    "map_of m t = Some (description_at (splitlines text) i)" by blast
  with nearest_good_comment_description [OF assms(1)]
  show "\<exists>m d. extract_tools text = Inr m
            \<and> nearest_good_comment (splitlines text) (int i) 25 = Inr d
            \<and> map_of m t = Some d"
    by blast
  show "\<forall>tools k v k' v'. map_of tools k = Some v
               \<longrightarrow> map_of (setdefault tools k' v') k = Some v"
    by (simp add: map_of_setdefault)
qed

theorem first_occurrence_wins_witness:
  "1 < length (splitlines (''G0 (HOME)'' @ [CHR 0x0A] @ ''T05 (FIRST TOOL)'' @ [CHR 0x0A]
                            @ ''T05 (SECOND TOOL)''))
   \<and> 5 \<in> set (invocations (splitlines (''G0 (HOME)'' @ [CHR 0x0A] @ ''T05 (FIRST TOOL)''
                            @ [CHR 0x0A] @ ''T05 (SECOND TOOL)'') ! 1))
   \<and> 5 \<notin> set (invocations (splitlines (''G0 (HOME)'' @ [CHR 0x0A] @ ''T05 (FIRST TOOL)''
                            @ [CHR 0x0A] @ ''T05 (SECOND TOOL)'') ! 0))
   \<and> extract_tools (''G0 (HOME)'' @ [CHR 0x0A] @ ''T05 (FIRST TOOL)'' @ [CHR 0x0A]
                      @ ''T05 (SECOND TOOL)'') = Inr [(5, ''FIRST TOOL'')]
   \<and> nearest_good_comment (splitlines (''G0 (HOME)'' @ [CHR 0x0A] @ ''T05 (FIRST TOOL)''
                            @ [CHR 0x0A] @ ''T05 (SECOND TOOL)'')) (int 1) 25
       = Inr ''FIRST TOOL''"
proof -
  let ?t = "''G0 (HOME)'' @ [CHR 0x0A] @ ''T05 (FIRST TOOL)'' @ [CHR 0x0A] @ ''T05 (SECOND TOOL)''"
  have h1: "1 < length (splitlines ?t)" by code_simp
  have h2: "5 \<in> set (invocations (splitlines ?t ! 1))" by code_simp
  have h0: "5 \<notin> set (invocations (splitlines ?t ! 0))" by code_simp
  have h3: "\<forall>j<1. 5 \<notin> set (invocations (splitlines ?t ! j))" using h0 by simp
  have e: "extract_tools ?t = Inr [(5, ''FIRST TOOL'')]" by code_simp
  from first_occurrence_wins [OF h1 h2 h3] obtain m d where
    m: "extract_tools ?t = Inr m" and n: "nearest_good_comment (splitlines ?t) (int 1) 25 = Inr d"
    and d: "map_of m 5 = Some d" by blast
  from m e have "m = [(5, ''FIRST TOOL'')]" by simp
  with d have "d = ''FIRST TOOL''" by simp
  with n have "nearest_good_comment (splitlines ?t) (int 1) 25 = Inr ''FIRST TOOL''" by simp
  with h1 h2 h0 e show ?thesis by blast
qed

text \<open>
  Claim C2, as the code has it. For every text, \<open>extract_tools\<close> returns a mapping (its
  keys are distinct) whose keys are tool numbers from 0 to 99 and whose values are strings.
\<close>

theorem extract_tools_keys:
  "\<exists>m. extract_tools text = Inr m \<and> distinct (map fst m) \<and> (\<forall>(k, v)\<in>set m. k \<le> 99)"
proof -
  obtain m where m: "extract_tools text = Inr m" and d: "distinct (map fst m)"
    and keys: "fst ` set m = (\<Union>l\<in>set (splitlines text). set (invocations l))"
    using extract_tools_result by blast
  have "\<forall>(k, v)\<in>set m. k \<le> 99"
  proof (clarify)
    fix k v assume "(k, v) \<in> set m"
    then have "k \<in> fst ` set m" by force
    with keys obtain l where "k \<in> set (invocations l)" by blast
    then show "k \<le> 99" by (rule invocations_bound)
  qed
  with m d show ?thesis by blast
qed

theorem extract_tools_keys_witness:
  "extract_tools ''T99 T0'' = Inr [(99, []), (0, [])]
   \<and> distinct (map fst [(99 :: nat, []), (0, [])])
   \<and> list_all (\<lambda>(k, v). k \<le> 99) [(99 :: nat, []), (0, [])]"
proof -
  have e: "extract_tools ''T99 T0'' = Inr [(99, []), (0, [])]" by code_simp
  from extract_tools_keys [of "''T99 T0''"] obtain m where
    "extract_tools ''T99 T0'' = Inr m" "distinct (map fst m)" "\<forall>(k, v)\<in>set m. k \<le> 99"
    by blast
  with e show ?thesis by (simp add: list_all_iff)
qed

text \<open>The tool number 0 is a key: the claim's range from 1 to 99 fails on the text \<open>T0\<close>.\<close>

theorem extract_tools_key_zero_counterexample:
  "extract_tools ''T0'' = Inr [(0, [])]"
  by code_simp

text \<open>
  Claim C4. Wherever a line has the letter T followed by one or two digits and then no
  further digit, the mill pattern matches these digits there, and their value is a key of
  the tool map. The line \<open>T1 (FACE MILL)\<close> gives the tool map \<open>{1: "FACE MILL"}\<close>;
  the text \<open>T123\<close> gives the empty tool map; and after a T that three digits follow, the
  mill pattern matches nothing.
\<close>

theorem mill_convention:
  assumes "i < length (splitlines text)"
    and "splitlines text ! i = pre @ CHR ''T'' # ds @ post"
    and "ds \<noteq> []" "length ds \<le> 2" "list_all is_digit ds" "no_digit_next post"
  shows "(\<exists>m d. extract_tools text = Inr m \<and> map_of m (digits_value ds) = Some d)
         \<and> mill_at (ds @ post) = Some (ds, length ds)
         \<and> extract_tools ''T1 (FACE MILL)'' = Inr [(1, ''FACE MILL'')]
         \<and> extract_tools ''T123'' = Inr []
         \<and> (\<forall>d1 d2 d3 r. is_digit d1 \<and> is_digit d2 \<and> is_digit d3
                \<longrightarrow> mill_at (d1 # d2 # d3 # r) = None)"
proof (intro conjI)
  have "digits_value ds \<in> set (invocations (splitlines text ! i))"
    unfolding assms(2) by (rule mill_invocation [OF assms(3-6)])
  from invoked_is_key [OF assms(1) this]
  show "\<exists>m d. extract_tools text = Inr m \<and> map_of m (digits_value ds) = Some d" .
  show "mill_at (ds @ post) = Some (ds, length ds)"
    by (rule mill_at_here [OF assms(3-6)])
  show "extract_tools ''T1 (FACE MILL)'' = Inr [(1, ''FACE MILL'')]" by code_simp
  show "extract_tools ''T123'' = Inr []" by code_simp
  show "\<forall>d1 d2 d3 r. is_digit d1 \<and> is_digit d2 \<and> is_digit d3
          \<longrightarrow> mill_at (d1 # d2 # d3 # r) = None"
    using mill_at_long_run by blast
qed

theorem mill_convention_witness:
  "0 < length (splitlines ''T1 (FACE MILL)'')
   \<and> splitlines ''T1 (FACE MILL)'' ! 0 = [] @ CHR ''T'' # ''1'' @ '' (FACE MILL)''
   \<and> ''1'' \<noteq> [] \<and> length ''1'' \<le> 2 \<and> list_all is_digit ''1''
   \<and> no_digit_next '' (FACE MILL)''
   \<and> (\<exists>m d. extract_tools ''T1 (FACE MILL)'' = Inr m
          \<and> map_of m (digits_value ''1'') = Some d)
   \<and> digits_value ''1'' = 1"
proof -
  have h1: "0 < length (splitlines ''T1 (FACE MILL)'')" by code_simp
  have h2: "splitlines ''T1 (FACE MILL)'' ! 0 = [] @ CHR ''T'' # ''1'' @ '' (FACE MILL)''"
    by code_simp
  have h3: "''1'' \<noteq> []" by simp
  have h4: "length ''1'' \<le> 2" by simp
  have h5: "list_all is_digit ''1''" by code_simp
  have h6: "no_digit_next '' (FACE MILL)''" by code_simp
  have v: "digits_value ''1'' = 1" by code_simp
  from mill_convention [OF h1 h2 h3 h4 h5 h6]
  have "\<exists>m d. extract_tools ''T1 (FACE MILL)'' = Inr m
          \<and> map_of m (digits_value ''1'') = Some d"
    by blast
  with h1 h2 h3 h4 h5 h6 v show ?thesis by blast
qed

text \<open>
  Claim C5. Wherever a line has the letter T followed by four digits, the lathe pattern
  matches there with the first two digits as its first group, the mill pattern does not
  match there, and the value of the first two digits is a key of the tool map. The line
  \<open>T0404 (ROUGH TURN)\<close> gives the tool map \<open>{4: "ROUGH TURN"}\<close>.
\<close>

theorem lathe_convention:
  assumes "i < length (splitlines text)"
    and "splitlines text ! i = pre @ CHR ''T'' # d1 # d2 # d3 # d4 # post"
    and "is_digit d1" "is_digit d2" "is_digit d3" "is_digit d4"
  shows "(\<exists>m d. extract_tools text = Inr m
            \<and> map_of m (10 * digit_val d1 + digit_val d2) = Some d)
         \<and> lathe_at (d1 # d2 # d3 # d4 # post) = Some ([d1, d2], 4)
         \<and> mill_at (d1 # d2 # d3 # d4 # post) = None
         \<and> extract_tools ''T0404 (ROUGH TURN)'' = Inr [(4, ''ROUGH TURN'')]"
proof (intro conjI)
  have v: "digits_value [d1, d2] = 10 * digit_val d1 + digit_val d2"
    by (simp add: digits_value_def)
  have "digits_value [d1, d2] \<in> set (invocations (splitlines text ! i))"
    unfolding assms(2) by (rule lathe_invocation [OF assms(3-6)])
  from invoked_is_key [OF assms(1) this]
  show "\<exists>m d. extract_tools text = Inr m \<and> map_of m (10 * digit_val d1 + digit_val d2) = Some d"
    unfolding v .
  show "lathe_at (d1 # d2 # d3 # d4 # post) = Some ([d1, d2], 4)"
    by (rule lathe_at_here [OF assms(3-6)])
  show "mill_at (d1 # d2 # d3 # d4 # post) = None"
    by (rule mill_at_long_run [OF assms(3-5)])
  show "extract_tools ''T0404 (ROUGH TURN)'' = Inr [(4, ''ROUGH TURN'')]"
    by code_simp
qed

theorem lathe_convention_witness:
  "0 < length (splitlines ''T0404 (ROUGH TURN)'')
   \<and> splitlines ''T0404 (ROUGH TURN)'' ! 0
       = [] @ CHR ''T'' # CHR ''0'' # CHR ''4'' # CHR ''0'' # CHR ''4'' # '' (ROUGH TURN)''
   \<and> is_digit (CHR ''0'') \<and> is_digit (CHR ''4'')
   \<and> (\<exists>m d. extract_tools ''T0404 (ROUGH TURN)'' = Inr m
          \<and> map_of m (10 * digit_val (CHR ''0'') + digit_val (CHR ''4'')) = Some d)
   \<and> 10 * digit_val (CHR ''0'') + digit_val (CHR ''4'') = 4"
proof -
  have h1: "0 < length (splitlines ''T0404 (ROUGH TURN)'')" by code_simp
  have h2: "splitlines ''T0404 (ROUGH TURN)'' ! 0
       = [] @ CHR ''T'' # CHR ''0'' # CHR ''4'' # CHR ''0'' # CHR ''4'' # '' (ROUGH TURN)''"
    by code_simp
  have d0: "is_digit (CHR ''0'')" by code_simp
  have d4: "is_digit (CHR ''4'')" by code_simp
  have v: "10 * digit_val (CHR ''0'') + digit_val (CHR ''4'') = 4" by code_simp
  from lathe_convention [OF h1 h2 d0 d4 d0 d4]
  have "\<exists>m d. extract_tools ''T0404 (ROUGH TURN)'' = Inr m
          \<and> map_of m (10 * digit_val (CHR ''0'') + digit_val (CHR ''4'')) = Some d"
    by blast
  with h1 h2 d0 d4 v show ?thesis by blast
qed

text \<open>
  Claim C9. The core functions never raise. \<open>extract_tools\<close> and \<open>format_tool_list\<close>
  contain operations that can raise (an index, \<open>int()\<close>, a dictionary lookup): in the
  model they return a sum, and the result is never an error, for every text, every
  program name and every tool map, also when the report is made from what the extractors
  return. \<open>is_noise_comment\<close> and \<open>extract_program_name\<close> use no operation that can
  raise (the group of a match is read only after the match succeeded), so their models
  are functions to \<open>bool\<close> and to an optional string, with no error value.
\<close>

theorem core_functions_total:
  "(\<exists>m. extract_tools text = Inr m
       \<and> (\<exists>r. format_tool_list (extract_program_name text) m = Inr r))
   \<and> (\<exists>r. format_tool_list name tools = Inr r)
   \<and> (\<exists>b. is_noise_comment txt = b)
   \<and> (\<exists>n. extract_program_name text = n)"
proof (intro conjI)
  obtain m where m: "extract_tools text = Inr m"
    using extract_tools_result by blast
  obtain r where "format_tool_list (extract_program_name text) m = Inr r"
    using format_tool_list_total by blast
  with m show "\<exists>m. extract_tools text = Inr m
       \<and> (\<exists>r. format_tool_list (extract_program_name text) m = Inr r)" by blast
  show "\<exists>r. format_tool_list name tools = Inr r" by (rule format_tool_list_total)
  show "\<exists>b. is_noise_comment txt = b" by simp
  show "\<exists>n. extract_program_name text = n" by simp
qed

theorem core_functions_total_witness:
  "(\<exists>m. extract_tools ''T1 (FACE MILL)'' = Inr m
       \<and> (\<exists>r. format_tool_list (extract_program_name ''T1 (FACE MILL)'') m = Inr r))
   \<and> (\<exists>r. format_tool_list None [] = Inr r)
   \<and> (\<exists>b. is_noise_comment ''date'' = b)
   \<and> (\<exists>n. extract_program_name ''T1 (FACE MILL)'' = n)"
  by (rule core_functions_total)

section \<open>The program name\<close>

lemma not_space_close: "\<not> is_space (CHR '')'')"
  by (simp add: is_space_def code_def)

lemma not_space_open: "\<not> is_space (CHR ''('')"
  by (simp add: is_space_def code_def)

lemma not_space_O: "\<not> is_space (CHR ''O'')"
  by (simp add: is_space_def code_def)

lemma not_digit_open: "\<not> is_digit (CHR ''('')"
  by (simp add: is_digit_def code_def)

lemma digit_not_space: "is_digit c \<Longrightarrow> \<not> is_space c"
  by (auto simp: is_digit_def is_space_def)

lemma space_not_digit: "is_space c \<Longrightarrow> \<not> is_digit c"
  by (auto simp: is_digit_def is_space_def)

lemma lazy_group_spaces:
  "CHR 0x0A \<notin> set g \<Longrightarrow> rev acc @ g \<noteq> [] \<Longrightarrow> list_all is_space r \<Longrightarrow>
   lazy_group (list_all is_space) acc (g @ CHR '')'' # r) = Some (rev acc @ g)"
proof (induction g arbitrary: acc)
  case Nil
  then show ?case by simp
next
  case (Cons c g)
  have "\<not> list_all is_space (g @ CHR '')'' # r)" by (simp add: not_space_close)
  moreover have "lazy_group (list_all is_space) (c # acc) (g @ CHR '')'' # r)
                   = Some (rev (c # acc) @ g)"
    using Cons.prems by (intro Cons.IH) simp_all
  ultimately show ?case using Cons.prems by auto
qed

lemma lazy_group_sound:
  "lazy_group k acc s = Some g \<Longrightarrow>
   \<exists>g' r. g = rev acc @ g' \<and> s = g' @ CHR '')'' # r \<and> k r \<and> g \<noteq> [] \<and> CHR 0x0A \<notin> set g'"
proof (induction s arbitrary: acc)
  case Nil
  then show ?case by simp
next
  case (Cons c s)
  show ?case
  proof (cases "acc \<noteq> [] \<and> c = CHR '')'' \<and> k s")
    case True
    with Cons.prems have "g = rev acc" by simp
    with True show ?thesis by (intro exI [of _ "[]"] exI [of _ s]) simp
  next
    case False
    with Cons.prems have nl: "c \<noteq> CHR 0x0A" and rec: "lazy_group k (c # acc) s = Some g"
      by (auto split: if_splits)
    from Cons.IH [OF rec] obtain g' r where
      "g = rev (c # acc) @ g'" "s = g' @ CHR '')'' # r" "k r" "g \<noteq> []" "CHR 0x0A \<notin> set g'"
      by blast
    with nl show ?thesis by (intro exI [of _ "c # g'"] exI [of _ r]) simp
  qed
qed


lemma o_header_here_shape:
  assumes "ds \<noteq> []" "list_all is_digit ds" "list_all is_space ws2" "g \<noteq> []"
    "CHR 0x0A \<notin> set g" "list_all is_space ws3"
  shows "o_header_here (''O'' @ ds @ ws2 @ ''('' @ g @ '')'' @ ws3) = Some g"
proof -
  have t: "takeWhile is_digit (ds @ ws2 @ ''('' @ g @ '')'' @ ws3) = ds"
  proof (cases ws2)
    case Nil
    then show ?thesis
      using assms(2) by (simp add: takeWhile_append2 list_all_iff not_digit_open)
  next
    case (Cons w ws)
    with assms(3) have "\<not> is_digit w" by (simp add: space_not_digit)
    with Cons show ?thesis
      using assms(2) by (simp add: takeWhile_append2 list_all_iff)
  qed
  have d: "dropWhile is_digit (ds @ ws2 @ ''('' @ g @ '')'' @ ws3) = ws2 @ ''('' @ g @ '')'' @ ws3"
    using t takeWhile_dropWhile_id [of is_digit "ds @ ws2 @ ''('' @ g @ '')'' @ ws3"]
    by (metis append_same_eq append_assoc same_append_eq)
  have s: "dropWhile is_space (ws2 @ ''('' @ g @ '')'' @ ws3) = ''('' @ g @ '')'' @ ws3"
    using assms(3) by (simp add: dropWhile_append2 list_all_iff not_space_open)
  have l: "lazy_group (list_all is_space) [] (g @ CHR '')'' # ws3) = Some g"
    using lazy_group_spaces [of g "[]" ws3] assms(4-6) by simp
  show ?thesis
    using assms(1) t d s l by (simp add: o_header_here_def)
qed

lemma re_o_header_shape:
  assumes "list_all is_space ws1" "ds \<noteq> []" "list_all is_digit ds" "list_all is_space ws2"
    "g \<noteq> []" "CHR 0x0A \<notin> set g" "list_all is_space ws3"
  shows "re_o_header (ws1 @ ''O'' @ ds @ ws2 @ ''('' @ g @ '')'' @ ws3) = Some g"
proof -
  have "dropWhile is_space (ws1 @ ''O'' @ ds @ ws2 @ ''('' @ g @ '')'' @ ws3)
          = ''O'' @ ds @ ws2 @ ''('' @ g @ '')'' @ ws3"
    using assms(1) by (simp add: dropWhile_append2 list_all_iff not_space_O)
  then show ?thesis
    using o_header_here_shape [OF assms(2-7)] by (simp add: re_o_header_def)
qed

lemma re_o_header_sound:
  assumes "re_o_header l = Some g"
  shows "\<exists>ws1 ds ws2 ws3. l = ws1 @ ''O'' @ ds @ ws2 @ ''('' @ g @ '')'' @ ws3
           \<and> list_all is_space ws1 \<and> ds \<noteq> [] \<and> list_all is_digit ds \<and> list_all is_space ws2
           \<and> g \<noteq> [] \<and> CHR 0x0A \<notin> set g \<and> list_all is_space ws3"
proof -
  let ?ws1 = "takeWhile is_space l"
  obtain r where r: "dropWhile is_space l = CHR ''O'' # r" and ds: "takeWhile is_digit r \<noteq> []"
    and rest: "(case dropWhile is_space (dropWhile is_digit r) of
               [] \<Rightarrow> None
             | p # body \<Rightarrow>
                 if p = CHR ''('' then lazy_group (list_all is_space) [] body else None) = Some g"
    using assms by (auto simp: re_o_header_def o_header_here_def split: list.splits if_splits)
  let ?ds = "takeWhile is_digit r"
  let ?ws2 = "takeWhile is_space (dropWhile is_digit r)"
  obtain body where b: "dropWhile is_space (dropWhile is_digit r) = CHR ''('' # body"
    and lg: "lazy_group (list_all is_space) [] body = Some g"
    using rest by (auto split: list.splits if_splits)
  from lazy_group_sound [OF lg] obtain ws3 where
    body: "body = g @ CHR '')'' # ws3" and ws3: "list_all is_space ws3" and g: "g \<noteq> []"
    "CHR 0x0A \<notin> set g" by auto
  have "l = ?ws1 @ dropWhile is_space l" by simp
  also have "dropWhile is_space l = CHR ''O'' # ?ds @ dropWhile is_digit r" using r by simp
  also have "dropWhile is_digit r = ?ws2 @ dropWhile is_space (dropWhile is_digit r)" by simp
  finally have "l = ?ws1 @ ''O'' @ ?ds @ ?ws2 @ ''('' @ g @ '')'' @ ws3"
    using b body by simp
  moreover have "list_all is_space ?ws1" "list_all is_digit ?ds" "list_all is_space ?ws2"
    by (auto simp: list_all_iff dest: set_takeWhileD)
  ultimately show ?thesis using ds ws3 g by blast
qed

lemma re_paren_line_shape:
  assumes "list_all is_space ws1" "g \<noteq> []" "CHR 0x0A \<notin> set g" "list_all is_space ws3"
  shows "re_paren_line (ws1 @ ''('' @ g @ '')'' @ ws3) = Some g"
proof -
  have "dropWhile is_space (ws1 @ ''('' @ g @ '')'' @ ws3) = ''('' @ g @ '')'' @ ws3"
    using assms(1) by (simp add: dropWhile_append2 list_all_iff not_space_open)
  moreover have "lazy_group (list_all is_space) [] (g @ CHR '')'' # ws3) = Some g"
    using lazy_group_spaces [of g "[]" ws3] assms(2-4) by simp
  ultimately show ?thesis by (simp add: re_paren_line_def)
qed

lemma re_paren_line_sound:
  assumes "re_paren_line l = Some g"
  shows "\<exists>ws1 ws3. l = ws1 @ ''('' @ g @ '')'' @ ws3
           \<and> list_all is_space ws1 \<and> g \<noteq> [] \<and> CHR 0x0A \<notin> set g \<and> list_all is_space ws3"
proof -
  obtain body where b: "dropWhile is_space l = CHR ''('' # body"
    and lg: "lazy_group (list_all is_space) [] body = Some g"
    using assms by (auto simp: re_paren_line_def split: list.splits if_splits)
  from lazy_group_sound [OF lg] obtain ws3 where
    body: "body = g @ CHR '')'' # ws3" and ws3: "list_all is_space ws3" and g: "g \<noteq> []"
    "CHR 0x0A \<notin> set g" by auto
  have "l = takeWhile is_space l @ dropWhile is_space l" by simp
  then have "l = takeWhile is_space l @ ''('' @ g @ '')'' @ ws3" using b body by simp
  moreover have "list_all is_space (takeWhile is_space l)"
    by (auto simp: list_all_iff dest: set_takeWhileD)
  ultimately show ?thesis using ws3 g by blast
qed

lemma first_o_header_None: "first_o_header ls = None \<longleftrightarrow> (\<forall>l\<in>set ls. re_o_header l = None)"
  by (induction ls) (auto split: option.splits)

lemma first_o_header_first:
  "\<forall>l\<in>set before. re_o_header l = None \<Longrightarrow> re_o_header line = Some g \<Longrightarrow>
   first_o_header (before @ line # after) = Some (strip g)"
  by (induction before) simp_all

lemma after_percent_seen:
  "after_percent True ls =
     (case filter (\<lambda>l. CHR ''%'' \<notin> set l \<and> re_paren_line l \<noteq> None) ls of
        [] \<Rightarrow> None
      | l # _ \<Rightarrow> map_option strip (re_paren_line l))"
  by (induction ls) (auto split: option.splits)

lemma after_percent_unseen:
  "after_percent False ls =
     (case dropWhile (\<lambda>l. CHR ''%'' \<notin> set l) ls of
        [] \<Rightarrow> None
      | marker # rest \<Rightarrow> after_percent True rest)"
  by (induction ls) simp_all

lemma after_percent_closed:
  "after_percent False ls =
     (case dropWhile (\<lambda>l. CHR ''%'' \<notin> set l) ls of
        [] \<Rightarrow> None
      | marker # rest \<Rightarrow>
          (case filter (\<lambda>l. CHR ''%'' \<notin> set l \<and> re_paren_line l \<noteq> None) rest of
             [] \<Rightarrow> None
           | l # _ \<Rightarrow> map_option strip (re_paren_line l)))"
  by (induction ls) (simp_all add: after_percent_seen)

text \<open>
  Claim C7, as the code has it. A header line is a line made of optional whitespace from
  the start of the line, the letter O, one or more digits, optional whitespace, a
  parenthesized group, optional whitespace and the end of the line; \<open>re_o_header\<close>
  matches exactly these lines, with the content of the group as its result. When the text
  has a header line, \<open>extract_program_name\<close> returns the trimmed content of the group
  of the first one. The line \<open>O1234 (PART NUMBER 99)\<close> gives the name
  \<open>PART NUMBER 99\<close>.
\<close>

theorem program_name_from_o_header:
  assumes "splitlines text = before @ line # after"
    and "\<forall>l\<in>set before. re_o_header l = None"
    and "line = ws1 @ ''O'' @ ds @ ws2 @ ''('' @ g @ '')'' @ ws3"
    and "list_all is_space ws1" "ds \<noteq> []" "list_all is_digit ds" "list_all is_space ws2"
    and "g \<noteq> []" "CHR 0x0A \<notin> set g" "list_all is_space ws3"
  shows "extract_program_name text = Some (strip g)
         \<and> (\<forall>l g'. re_o_header l = Some g' \<longleftrightarrow>
               (\<exists>w1 d w2 w3. l = w1 @ ''O'' @ d @ w2 @ ''('' @ g' @ '')'' @ w3
                  \<and> list_all is_space w1 \<and> d \<noteq> [] \<and> list_all is_digit d
                  \<and> list_all is_space w2 \<and> g' \<noteq> [] \<and> CHR 0x0A \<notin> set g'
                  \<and> list_all is_space w3))
         \<and> extract_program_name ''O1234 (PART NUMBER 99)'' = Some ''PART NUMBER 99''"
proof (intro conjI allI)
  have "re_o_header line = Some g"
    unfolding assms(3) by (rule re_o_header_shape [OF assms(4-10)])
  then have "first_o_header (splitlines text) = Some (strip g)"
    unfolding assms(1) by (rule first_o_header_first [OF assms(2)])
  then show "extract_program_name text = Some (strip g)"
    by (simp add: extract_program_name_def)
next
  fix l g'
  show "re_o_header l = Some g' \<longleftrightarrow>
               (\<exists>w1 d w2 w3. l = w1 @ ''O'' @ d @ w2 @ ''('' @ g' @ '')'' @ w3
                  \<and> list_all is_space w1 \<and> d \<noteq> [] \<and> list_all is_digit d
                  \<and> list_all is_space w2 \<and> g' \<noteq> [] \<and> CHR 0x0A \<notin> set g'
                  \<and> list_all is_space w3)"
  proof
    assume "re_o_header l = Some g'"
    then show "\<exists>w1 d w2 w3. l = w1 @ ''O'' @ d @ w2 @ ''('' @ g' @ '')'' @ w3
                  \<and> list_all is_space w1 \<and> d \<noteq> [] \<and> list_all is_digit d
                  \<and> list_all is_space w2 \<and> g' \<noteq> [] \<and> CHR 0x0A \<notin> set g'
                  \<and> list_all is_space w3"
      by (rule re_o_header_sound)
  next
    assume "\<exists>w1 d w2 w3. l = w1 @ ''O'' @ d @ w2 @ ''('' @ g' @ '')'' @ w3
                  \<and> list_all is_space w1 \<and> d \<noteq> [] \<and> list_all is_digit d
                  \<and> list_all is_space w2 \<and> g' \<noteq> [] \<and> CHR 0x0A \<notin> set g'
                  \<and> list_all is_space w3"
    then obtain w1 d w2 w3 where "l = w1 @ ''O'' @ d @ w2 @ ''('' @ g' @ '')'' @ w3"
      "list_all is_space w1" "d \<noteq> []" "list_all is_digit d" "list_all is_space w2"
      "g' \<noteq> []" "CHR 0x0A \<notin> set g'" "list_all is_space w3"
      by blast
    then show "re_o_header l = Some g'" using re_o_header_shape by blast
  qed
next
  show "extract_program_name ''O1234 (PART NUMBER 99)'' = Some ''PART NUMBER 99''"
    by code_simp
qed

theorem program_name_from_o_header_witness:
  "splitlines (''%'' @ [CHR 0x0A] @ '' O1234  (PART NUMBER 99) '')
     = [''%''] @ ('' '' @ ''O'' @ ''1234'' @ ''  '' @ ''('' @ ''PART NUMBER 99'' @ '')'' @ '' '') # []
   \<and> list_all (\<lambda>l. re_o_header l = None) [''%'']
   \<and> list_all is_space '' '' \<and> ''1234'' \<noteq> [] \<and> list_all is_digit ''1234''
   \<and> list_all is_space ''  '' \<and> ''PART NUMBER 99'' \<noteq> []
   \<and> CHR 0x0A \<notin> set ''PART NUMBER 99''
   \<and> extract_program_name (''%'' @ [CHR 0x0A] @ '' O1234  (PART NUMBER 99) '')
       = Some ''PART NUMBER 99''"
proof -
  have h1: "splitlines (''%'' @ [CHR 0x0A] @ '' O1234  (PART NUMBER 99) '')
     = [''%''] @ ('' '' @ ''O'' @ ''1234'' @ ''  '' @ ''('' @ ''PART NUMBER 99'' @ '')'' @ '' '') # []"
    by code_simp
  have h2': "list_all (\<lambda>l. re_o_header l = None) [''%'']" by code_simp
  then have h2: "\<forall>l\<in>set [''%'']. re_o_header l = None" by (simp add: list_all_iff)
  have h4: "list_all is_space '' ''" by code_simp
  have h5: "''1234'' \<noteq> []" by simp
  have h6: "list_all is_digit ''1234''" by code_simp
  have h7: "list_all is_space ''  ''" by code_simp
  have h8: "''PART NUMBER 99'' \<noteq> []" by simp
  have h9: "CHR 0x0A \<notin> set ''PART NUMBER 99''" by code_simp
  have s: "strip ''PART NUMBER 99'' = ''PART NUMBER 99''" by code_simp
  from program_name_from_o_header [OF h1 h2 refl h4 h5 h6 h7 h8 h9 h4]
  have "extract_program_name (''%'' @ [CHR 0x0A] @ '' O1234  (PART NUMBER 99) '')
       = Some (strip ''PART NUMBER 99'')" by blast
  with s h1 h2' h4 h5 h6 h7 h8 h9 show ?thesis by simp
qed

text \<open>
  The claim as the specification words it asks for a word start before the letter O. The
  line \<open>N1 O1234 (NAME)\<close> has one, with the digits, the group and the end of the line
  after it, and the code finds no name in it: the code asks for the start of the line.
\<close>

theorem program_name_word_start_counterexample:
  "spec_o_header False ''N1 O1234 (NAME)'' = Some ''NAME''
   \<and> extract_program_name ''N1 O1234 (NAME)'' = None"
  by code_simp

text \<open>
  Claim C3, as the code has it. When no line of the text is a header line, the result of
  \<open>extract_program_name\<close> is the trimmed content of the first line that comes after
  the first line with a percent sign, has no percent sign itself and is entirely a
  parenthesized group (with nothing but whitespace around it); when there is no line with
  a percent sign, or no such line after the first one, the result is \<open>None\<close>.
  \<open>re_paren_line\<close> matches exactly the lines that are entirely a parenthesized group.
  A percent line followed by the line \<open>(WIDGET BRACKET)\<close> gives the name
  \<open>WIDGET BRACKET\<close>.
\<close>

theorem program_name_after_percent:
  assumes "\<forall>l\<in>set (splitlines text). re_o_header l = None"
  shows "extract_program_name text =
           (case dropWhile (\<lambda>l. CHR ''%'' \<notin> set l) (splitlines text) of
              [] \<Rightarrow> None
            | marker # rest \<Rightarrow>
                (case filter (\<lambda>l. CHR ''%'' \<notin> set l \<and> re_paren_line l \<noteq> None) rest of
                   [] \<Rightarrow> None
                 | l # _ \<Rightarrow> map_option strip (re_paren_line l)))
         \<and> (\<forall>l g. re_paren_line l = Some g \<longleftrightarrow>
               (\<exists>w1 w3. l = w1 @ ''('' @ g @ '')'' @ w3 \<and> list_all is_space w1
                  \<and> g \<noteq> [] \<and> CHR 0x0A \<notin> set g \<and> list_all is_space w3))
         \<and> extract_program_name (''%'' @ [CHR 0x0A] @ ''(WIDGET BRACKET)'')
             = Some ''WIDGET BRACKET''"
proof (intro conjI allI)
  have "first_o_header (splitlines text) = None"
    using assms by (simp add: first_o_header_None)
  then show "extract_program_name text =
           (case dropWhile (\<lambda>l. CHR ''%'' \<notin> set l) (splitlines text) of
              [] \<Rightarrow> None
            | marker # rest \<Rightarrow>
                (case filter (\<lambda>l. CHR ''%'' \<notin> set l \<and> re_paren_line l \<noteq> None) rest of
                   [] \<Rightarrow> None
                 | l # _ \<Rightarrow> map_option strip (re_paren_line l)))"
    by (simp add: extract_program_name_def after_percent_closed)
next
  fix l g
  show "re_paren_line l = Some g \<longleftrightarrow>
               (\<exists>w1 w3. l = w1 @ ''('' @ g @ '')'' @ w3 \<and> list_all is_space w1
                  \<and> g \<noteq> [] \<and> CHR 0x0A \<notin> set g \<and> list_all is_space w3)"
  proof
    assume "re_paren_line l = Some g"
    then show "\<exists>w1 w3. l = w1 @ ''('' @ g @ '')'' @ w3 \<and> list_all is_space w1
                  \<and> g \<noteq> [] \<and> CHR 0x0A \<notin> set g \<and> list_all is_space w3"
      by (rule re_paren_line_sound)
  next
    assume "\<exists>w1 w3. l = w1 @ ''('' @ g @ '')'' @ w3 \<and> list_all is_space w1
                  \<and> g \<noteq> [] \<and> CHR 0x0A \<notin> set g \<and> list_all is_space w3"
    then show "re_paren_line l = Some g" using re_paren_line_shape by blast
  qed
next
  show "extract_program_name (''%'' @ [CHR 0x0A] @ ''(WIDGET BRACKET)'') = Some ''WIDGET BRACKET''"
    by code_simp
qed

theorem program_name_after_percent_witness:
  "list_all (\<lambda>l. re_o_header l = None)
     (splitlines (''G90'' @ [CHR 0x0A] @ ''%'' @ [CHR 0x0A] @ ''(FEED 50%)'' @ [CHR 0x0A]
                   @ ''G0 X1'' @ [CHR 0x0A] @ '' ( WIDGET BRACKET ) ''))
   \<and> extract_program_name (''G90'' @ [CHR 0x0A] @ ''%'' @ [CHR 0x0A] @ ''(FEED 50%)''
        @ [CHR 0x0A] @ ''G0 X1'' @ [CHR 0x0A] @ '' ( WIDGET BRACKET ) '')
       = Some ''WIDGET BRACKET''"
proof -
  let ?t = "''G90'' @ [CHR 0x0A] @ ''%'' @ [CHR 0x0A] @ ''(FEED 50%)'' @ [CHR 0x0A]
              @ ''G0 X1'' @ [CHR 0x0A] @ '' ( WIDGET BRACKET ) ''"
  have h': "list_all (\<lambda>l. re_o_header l = None) (splitlines ?t)" by code_simp
  then have h: "\<forall>l\<in>set (splitlines ?t). re_o_header l = None" by (simp add: list_all_iff)
  have v: "(case dropWhile (\<lambda>l. CHR ''%'' \<notin> set l) (splitlines ?t) of
              [] \<Rightarrow> None
            | marker # rest \<Rightarrow>
                (case filter (\<lambda>l. CHR ''%'' \<notin> set l \<and> re_paren_line l \<noteq> None) rest of
                   [] \<Rightarrow> None
                 | l # _ \<Rightarrow> map_option strip (re_paren_line l))) = Some ''WIDGET BRACKET''"
    by code_simp
  from program_name_after_percent [OF h]
  have "extract_program_name ?t =
           (case dropWhile (\<lambda>l. CHR ''%'' \<notin> set l) (splitlines ?t) of
              [] \<Rightarrow> None
            | marker # rest \<Rightarrow>
                (case filter (\<lambda>l. CHR ''%'' \<notin> set l \<and> re_paren_line l \<noteq> None) rest of
                   [] \<Rightarrow> None
                 | l # _ \<Rightarrow> map_option strip (re_paren_line l)))"
    by blast
  with v h' show ?thesis by simp
qed

text \<open>
  The claim as the specification words it takes the first parenthesized line after the
  first percent line. The code passes over every line that has a percent sign: after a
  percent line, the line \<open>(50% FEED)\<close> is passed over and the name is taken from the
  line after it.
\<close>

theorem program_name_percent_line_counterexample:
  "list_all (\<lambda>l. re_o_header l = None)
     (splitlines (''%'' @ [CHR 0x0A] @ ''(50% FEED)'' @ [CHR 0x0A] @ ''(NAME)''))
   \<and> spec_strategy2 (splitlines (''%'' @ [CHR 0x0A] @ ''(50% FEED)'' @ [CHR 0x0A] @ ''(NAME)''))
       = Some ''50% FEED''
   \<and> extract_program_name (''%'' @ [CHR 0x0A] @ ''(50% FEED)'' @ [CHR 0x0A] @ ''(NAME)'')
       = Some ''NAME''"
  by code_simp

end
